theory Spec2Isabelle
  imports Complex_Main "HOL-Library.Sublist" "HOL-Library.List_Lexorder" "HOL-Library.Char_ord"
begin

section \<open>ZANS task manager: task store, search, reminders and backups\<close>

text \<open>
  A shallow embedding of the task manager bot: the "fully upgraded" \<^verbatim>\<open>index.js\<close> draft
  (the file that holds \<^verbatim>\<open>parseWindowToMinutes\<close>, \<^verbatim>\<open>scheduleReminders\<close>,
  \<^verbatim>\<open>getAllTasksUnique\<close>, \<^verbatim>\<open>findTaskById\<close>, \<^verbatim>\<open>fuzzySearchTasks\<close>,
  \<^verbatim>\<open>backupFile\<close> and the command handlers), and the assignee computation of the older
  \<^verbatim>\<open>src/index.js\<close> draft.

  Conventions of the model.
  \<^item> Strings are \<open>string\<close>: a character is a code point from 0 to 255. On these
    \<^verbatim>\<open>toLowerCase\<close> and \<^verbatim>\<open>trim\<close> are as in JavaScript; text with other characters is
    outside the model.
  \<^item> JavaScript numbers are doubles: every arithmetic result is rounded to the nearest
    binary64 value (\<open>double_round\<close>, \<open>to_double\<close>). Instants are time values, \<open>int\<close>
    milliseconds since the epoch of magnitude at most 8.64e15, which are doubles.
  \<^item> A task is a JavaScript object. The handlers push one object into several
    assignees' arrays, so the store is a heap of task objects (an address is an index of
    \<open>heap\<close>) and the \<^verbatim>\<open>tasks\<close> Map holds, per assignee and in insertion order, the
    addresses in that assignee's array.
  \<^item> The clock (\<^verbatim>\<open>new Date()\<close>, \<^verbatim>\<open>Date.now()\<close>) is the parameter \<open>now\<close>; all clock
    reads of one handler run return the same instant.
  \<^item> \<^verbatim>\<open>new Date(str)\<close>, whose grammar is implementation-defined, is the parameter
    \<open>parseDate\<close> (\<open>None\<close> is an Invalid Date). A stored \<^verbatim>\<open>due\<close> is the ISO string of an
    instant and is kept as that instant.
  \<^item> Of a command handler the model keeps the store it leaves and which rejection it
    replied with; the reply text is left out. Writing \<^verbatim>\<open>tasks.json\<close> and reading it back
    are \<open>saveTasks\<close> and \<open>loadTasks\<close>; the direct messages of the reminder scan are the
    list of notices it returns.
\<close>

subsection \<open>Strings\<close>

definition is_digit :: "char \<Rightarrow> bool" where
  "is_digit c = (48 \<le> (of_char c :: nat) \<and> (of_char c :: nat) \<le> 57)"

definition digit_val :: "char \<Rightarrow> nat" where
  "digit_val c = of_char c - 48"

definition digit_char :: "nat \<Rightarrow> char" where
  "digit_char k = char_of (48 + k)"

text \<open>
  White space and line terminators (tab, line feed, vertical tab, form feed, carriage
  return, space, no-break space), and the letters that have a lower case, 32 code
  points further: \<^verbatim>\<open>A\<close> to \<^verbatim>\<open>Z\<close> and the accented capitals 192 to 222 without the
  multiplication sign 215.
\<close>

definition is_space :: "char \<Rightarrow> bool" where
  "is_space c = ((of_char c :: nat) \<in> {9, 10, 11, 12, 13, 32, 160})"

definition is_upper :: "char \<Rightarrow> bool" where
  "is_upper c =
     (65 \<le> (of_char c :: nat) \<and> (of_char c :: nat) \<le> 90
      \<or> 192 \<le> (of_char c :: nat) \<and> (of_char c :: nat) \<le> 222 \<and> (of_char c :: nat) \<noteq> 215)"

definition lower_char :: "char \<Rightarrow> char" where
  "lower_char c = (if is_upper c then char_of ((of_char c :: nat) + 32) else c)"

definition toLowerCase :: "string \<Rightarrow> string" where
  "toLowerCase s = map lower_char s"

definition trim :: "string \<Rightarrow> string" where
  "trim s = rev (dropWhile is_space (rev (dropWhile is_space s)))"

definition endsWith :: "string \<Rightarrow> char \<Rightarrow> bool" where
  "endsWith s c = (s \<noteq> [] \<and> last s = c)"

text \<open>\<^verbatim>\<open>s.includes(q)\<close>: \<open>q\<close> occurs in \<open>s\<close> as a contiguous substring.\<close>

fun includes_str :: "string \<Rightarrow> string \<Rightarrow> bool" where
  "includes_str [] q = (q = [])"
| "includes_str (c # s) q = (prefix q (c # s) \<or> includes_str s q)"

text \<open>\<^verbatim>\<open>String(n)\<close> for a non-negative integer \<open>n\<close>.\<close>

fun decimal :: "nat \<Rightarrow> string" where
  "decimal n = (if n < 10 then [digit_char n] else decimal (n div 10) @ [digit_char (n mod 10)])"

declare decimal.simps [simp del]

subsection \<open>Numbers: doubles, \<^verbatim>\<open>parseFloat\<close> and the reminder windows\<close>

text \<open>
  A JavaScript number is an IEEE 754 binary64 value. The finite ones are the rationals
  \<open>m * 2 ^ e\<close> with \<open>\<bar>m\<bar> < 2 ^ 53\<close> and \<open>- 1074 \<le> e \<le> 971\<close>; they are kept as \<open>rat\<close>
  (the two zeros are not told apart: no comparison of the code does). \<open>jsnum\<close> adds
  \<^verbatim>\<open>null\<close>, \<^verbatim>\<open>NaN\<close> and the two infinities.
\<close>

datatype jsnum = Null | NaN | Num rat | PosInf | NegInf

text \<open>Rounding to the nearest integer, a tie to the even one.\<close>

definition round_even :: "rat \<Rightarrow> int" where
  "round_even x =
     (let f = \<lfloor>x\<rfloor>; r = x - of_int f
      in if r < 1 / 2 then f
         else if 1 / 2 < r then f + 1
         else if even f then f else f + 1)"

text \<open>
  The exponent of the unit in the last place of a double of magnitude \<open>a\<close>: the
  greatest \<open>e\<close> between \<open>- 1074\<close> and \<open>971\<close> with \<open>2 ^ (e + 52) \<le> a\<close>, and \<open>- 1074\<close> for the
  subnormal magnitudes below \<open>2 ^ (- 1022)\<close>.
\<close>

definition double_exponent :: "rat \<Rightarrow> int" where
  "double_exponent a =
     (case find (\<lambda>e. 2 powi (e + 52) \<le> a) (rev [- 1074 .. 971]) of
        Some e \<Rightarrow> e
      | None \<Rightarrow> - 1074)"

text \<open>
  The value that round-to-nearest, ties-to-even gives a real number \<open>x\<close>, before the
  check for overflow; \<open>to_double\<close> is the number the code computes.
\<close>

definition double_round :: "rat \<Rightarrow> rat" where
  "double_round x =
     (let a = \<bar>x\<bar>;
          e = double_exponent a;
          v = of_int (round_even (a / 2 powi e)) * 2 powi e
      in if x < 0 then - v else v)"

definition to_double :: "rat \<Rightarrow> jsnum" where
  "to_double x =
     (if 2 powi 1024 \<le> \<bar>double_round x\<bar> then (if x < 0 then NegInf else PosInf)
      else Num (double_round x))"

definition dec_value :: "string \<Rightarrow> int" where
  "dec_value ds = foldl (\<lambda>acc c. 10 * acc + int (digit_val c)) 0 ds"

text \<open>
  The exponent part of a decimal literal: \<^verbatim>\<open>e\<close> or \<^verbatim>\<open>E\<close>, an optional sign and at least
  one digit; anything else is not part of the number.
\<close>

definition exponent :: "string \<Rightarrow> int" where
  "exponent s =
     (case s of
        [] \<Rightarrow> 0
      | c # r \<Rightarrow>
          if c = CHR ''e'' \<or> c = CHR ''E'' then
            (case r of
               [] \<Rightarrow> 0
             | d # r' \<Rightarrow>
                 if d = CHR ''-'' then - dec_value (takeWhile is_digit r')
                 else if d = CHR ''+'' then dec_value (takeWhile is_digit r')
                 else dec_value (takeWhile is_digit r))
          else 0)"

text \<open>
  \<^verbatim>\<open>parseFloat\<close>: leading white space, an optional sign, digits, an optional fraction and
  an optional exponent; the longest such prefix is the literal, and the result is
  \<^verbatim>\<open>NaN\<close> when there is no digit. The value of the literal is rounded to the nearest
  double whatever the number of its digits, as Node.js does. (The literal \<^verbatim>\<open>Infinity\<close>
  cannot reach it: the caller lower-cases first.)
\<close>

definition parseFloat :: "string \<Rightarrow> jsnum" where
  "parseFloat s0 =
     (let s = dropWhile is_space s0;
          neg = (s \<noteq> [] \<and> hd s = CHR ''-'');
          s1 = (if s \<noteq> [] \<and> (hd s = CHR ''-'' \<or> hd s = CHR ''+'') then tl s else s);
          ip = takeWhile is_digit s1;
          s2 = dropWhile is_digit s1;
          dot = (s2 \<noteq> [] \<and> hd s2 = CHR ''.'');
          fp = (if dot then takeWhile is_digit (tl s2) else []);
          s3 = (if dot then dropWhile is_digit (tl s2) else s2)
      in if ip = [] \<and> fp = [] then NaN
         else to_double ((if neg then - 1 else 1)
                         * (of_int (dec_value ip) + of_int (dec_value fp) / 10 ^ length fp)
                         * 10 powi (exponent s3)))"

text \<open>
  \<^verbatim>\<open>x * k\<close> for a positive integer constant \<open>k\<close>: the product of two doubles, rounded.
\<close>

definition js_times :: "jsnum \<Rightarrow> rat \<Rightarrow> jsnum" where
  "js_times x k =
     (case x of
        Num r \<Rightarrow> to_double (r * k)
      | NaN \<Rightarrow> NaN
      | PosInf \<Rightarrow> PosInf
      | NegInf \<Rightarrow> NegInf
      | Null \<Rightarrow> Num 0)"

text \<open>
  \<^verbatim>\<open>parseWindowToMinutes\<close>; \<^verbatim>\<open>parseFloat(s)*60*24\<close> is two products, each of them rounded.
\<close>

definition parseWindowToMinutes :: "string \<Rightarrow> jsnum" where
  "parseWindowToMinutes s0 =
     (if s0 = [] then Null
      else
        (let s = toLowerCase (trim s0) in
         if endsWith s (CHR ''h'') then js_times (parseFloat s) 60
         else if endsWith s (CHR ''m'') then parseFloat s
         else if endsWith s (CHR ''d'') then js_times (js_times (parseFloat s) 60) 24
         else js_times (parseFloat s) 60))"

subsection \<open>Tasks and the store\<close>

type_synonym uid = string
type_synonym addr = nat

record logentry =
  date :: int
  action :: string

record task =
  task_id :: int
  title :: string
  description :: string
  due :: "int option"
  status :: string
  createdBy :: string
  assignedTo :: "uid list"
  department :: "string option"
  logs :: "logentry list"
  remindersSent :: "string list"

record store =
  heap :: "task list"
  tasks :: "(uid \<times> addr list) list"

text \<open>
  The rejections a handler replies with; \<open>InternalError\<close> is the reply of the handler's
  \<^verbatim>\<open>catch\<close> ("Error occurred") after an exception.
\<close>

datatype error = NotFound | Forbidden | InvalidStatus | EmptyAssignment | InternalError

text \<open>\<^verbatim>\<open>Map.prototype.set\<close>: an existing key keeps its position, a new key goes last.\<close>

fun map_set :: "'k \<Rightarrow> 'v \<Rightarrow> ('k \<times> 'v) list \<Rightarrow> ('k \<times> 'v) list" where
  "map_set k v [] = [(k, v)]"
| "map_set k v ((k', v') # m) = (if k' = k then (k, v) # m else (k', v') # map_set k v m)"

text \<open>\<^verbatim>\<open>if(!tasks.has(uid)) tasks.set(uid,[]); tasks.get(uid).push(task)\<close>\<close>

definition push_task :: "uid \<Rightarrow> addr \<Rightarrow> (uid \<times> addr list) list \<Rightarrow> (uid \<times> addr list) list" where
  "push_task u a ts =
     (case map_of ts u of
        None \<Rightarrow> map_set u [a] ts
      | Some l \<Rightarrow> map_set u (l @ [a]) ts)"

text \<open>
  The order in which \<^verbatim>\<open>for(const [uid,list] of tasks.entries()) for(const t of list)\<close>
  visits the stored entries.
\<close>

definition entries :: "store \<Rightarrow> (uid \<times> addr) list" where
  "entries s = concat (map (\<lambda>(u, l). map (\<lambda>a. (u, a)) l) (tasks s))"

text \<open>
  Every stored address is an object of the heap, and the Map has one entry per key.
\<close>

definition wf :: "store \<Rightarrow> bool" where
  "wf s = (distinct (map fst (tasks s)) \<and> list_all (\<lambda>(u, a). a < length (heap s)) (entries s))"

definition parseDue :: "(string \<Rightarrow> int option) \<Rightarrow> string option \<Rightarrow> int option" where
  "parseDue parseDate dateStr =
     (case dateStr of
        None \<Rightarrow> None
      | Some str \<Rightarrow> if str = [] then None else parseDate str)"

text \<open>
  \<^verbatim>\<open>getAllTasksUnique\<close>: \<open>seen\<close> is the set of ids met so far; an entry is a copy of the
  task tagged with the assignee under which it was met.
\<close>

fun unique_loop :: "task list \<Rightarrow> (uid \<times> addr) list \<Rightarrow> int list \<Rightarrow> (uid \<times> task) list" where
  "unique_loop h [] seen = []"
| "unique_loop h ((u, a) # rest) seen =
     (if task_id (h ! a) \<in> set seen then unique_loop h rest seen
      else (u, h ! a) # unique_loop h rest (task_id (h ! a) # seen))"

text \<open>The stored entries in scan order, each with the value of its task.\<close>

definition scanned :: "store \<Rightarrow> (uid \<times> task) list" where
  "scanned s = map (\<lambda>(u, a). (u, heap s ! a)) (entries s)"

definition getAllTasksUnique :: "store \<Rightarrow> (uid \<times> task) list" where
  "getAllTasksUnique s = unique_loop (heap s) (entries s) []"

fun findIndex :: "('a \<Rightarrow> bool) \<Rightarrow> 'a list \<Rightarrow> nat option" where
  "findIndex P [] = None"
| "findIndex P (x # xs) = (if P x then Some 0 else map_option Suc (findIndex P xs))"

fun find_loop :: "task list \<Rightarrow> int \<Rightarrow> (uid \<times> addr list) list \<Rightarrow> (uid \<times> nat \<times> addr) option" where
  "find_loop h i [] = None"
| "find_loop h i ((u, l) # rest) =
     (case findIndex (\<lambda>a. task_id (h ! a) = i) l of
        Some idx \<Rightarrow> Some (u, idx, l ! idx)
      | None \<Rightarrow> find_loop h i rest)"

definition findTaskById :: "store \<Rightarrow> int \<Rightarrow> (uid \<times> nat \<times> addr) option" where
  "findTaskById s i = find_loop (heap s) i (tasks s)"

subsection \<open>Fuzzy search\<close>

definition score_task :: "string \<Rightarrow> task \<Rightarrow> nat" where
  "score_task query t =
     (let ttl = toLowerCase (title t);
          desc = toLowerCase (description t)
      in (if ttl = query then 100 else 0)
         + (if includes_str ttl query then 50 else 0)
         + (if includes_str desc query then 20 else 0)
         + length (filter (\<lambda>ch. includes_str ttl [ch]) query))"

text \<open>\<^verbatim>\<open>xs.slice(0, limit)\<close>: a negative \<open>limit\<close> counts from the end.\<close>

definition slice0 :: "int \<Rightarrow> 'a list \<Rightarrow> 'a list" where
  "slice0 limit xs =
     (if 0 \<le> limit then take (nat limit) xs else take (length xs - nat (- limit)) xs)"

text \<open>
  \<^verbatim>\<open>sort((a,b)=>b.score-a.score)\<close> is a stable sort by descending score, as
  \<open>sort_key\<close> on the negated score is.
\<close>

definition fuzzySearchTasks :: "string \<Rightarrow> int \<Rightarrow> store \<Rightarrow> (uid \<times> task) list" where
  "fuzzySearchTasks q limit s =
     (let query = toLowerCase q;
          all = getAllTasksUnique s;
          scored = map (\<lambda>t. (t, score_task query (snd t))) all
      in map fst (slice0 limit (sort_key (\<lambda>x. - int (snd x)) (filter (\<lambda>x. 0 < snd x) scored))))"

text \<open>
  The scoring and the search as the specification words them, to compare with the code:
  the last summand is one point per \<^emph>\<open>distinct\<close> query character present in the title.
\<close>

definition score_as_specified :: "string \<Rightarrow> task \<Rightarrow> nat" where
  "score_as_specified query t =
     (let ttl = toLowerCase (title t);
          desc = toLowerCase (description t)
      in (if ttl = query then 100 else 0)
         + (if includes_str ttl query then 50 else 0)
         + (if includes_str desc query then 20 else 0)
         + length (remdups (filter (\<lambda>ch. ch \<in> set ttl) query)))"

definition fuzzySearch_as_specified :: "string \<Rightarrow> int \<Rightarrow> store \<Rightarrow> (uid \<times> task) list" where
  "fuzzySearch_as_specified q limit s =
     (let query = toLowerCase q;
          all = getAllTasksUnique s;
          scored = map (\<lambda>t. (t, score_as_specified query (snd t))) all
      in map fst (slice0 limit (sort_key (\<lambda>x. - int (snd x)) (filter (\<lambda>x. 0 < snd x) scored))))"

text \<open>The score the search gives an entry of the deduplicated list.\<close>

abbreviation rank_score :: "string \<Rightarrow> uid \<times> task \<Rightarrow> nat" where
  "rank_score q x \<equiv> score_task (toLowerCase q) (snd x)"

subsection \<open>Command handlers\<close>

text \<open>
  A handler returns the error it replied with (\<open>None\<close> on success) and the store it
  leaves. \<open>priv\<close> is \<^verbatim>\<open>isAdminOrManager(user.id, guild)\<close>.
\<close>

definition task_create ::
  "(string \<Rightarrow> int option) \<Rightarrow> uid \<Rightarrow> string \<Rightarrow> string \<Rightarrow> string option \<Rightarrow> string option \<Rightarrow> int
     \<Rightarrow> store \<Rightarrow> error option \<times> store" where
  "task_create parseDate user_id user_name ttl descr dueStr now s =
     (let t = \<lparr>task_id = now, title = ttl,
                description = (case descr of None \<Rightarrow> [] | Some d \<Rightarrow> d),
                due = parseDue parseDate dueStr, status = ''Pending'', createdBy = user_name,
                assignedTo = [user_id], department = None,
                logs = [\<lparr>date = now, action = ''Created''\<rparr>], remindersSent = []\<rparr>
      in (None, \<lparr>heap = heap s @ [t], tasks = push_task user_id (length (heap s)) (tasks s)\<rparr>))"

text \<open>
  \<^verbatim>\<open>/task-list\<close>: the deduplicated list for a privileged caller, the caller's own
  collection otherwise; positions in it are the indices \<^verbatim>\<open>/task-update\<close> takes.
\<close>

definition task_list :: "store \<Rightarrow> uid \<Rightarrow> bool \<Rightarrow> (uid \<times> task) list" where
  "task_list s user_id priv =
     (if priv then getAllTasksUnique s
      else map (\<lambda>a. (user_id, heap s ! a))
             (case map_of (tasks s) user_id of None \<Rightarrow> [] | Some l \<Rightarrow> l))"

text \<open>\<^verbatim>\<open>[...new Set(xs)]\<close>: the first occurrence of each element, in order.\<close>

definition dedup :: "'a list \<Rightarrow> 'a list" where
  "dedup xs = rev (remdups (rev xs))"

text \<open>
  A mentionable (a user, member or role object of the chat platform) and the list
  \<^verbatim>\<open>safeMentionableArray\<close> makes of the \<^verbatim>\<open>users\<close> option.
\<close>

record mentionable =
  mention_id :: uid
  username :: string

text \<open>
  \<^verbatim>\<open>departments\<close> is a plain object read from \<^verbatim>\<open>departments.json\<close>, with lists of member
  ids as values. \<^verbatim>\<open>departments[name]\<close> is the own property when there is one; for a name
  that \<^verbatim>\<open>Object.prototype\<close> defines it is the inherited function or object, which is truthy
  and not iterable; otherwise it is \<^verbatim>\<open>undefined\<close>.
\<close>

definition object_prototype_names :: "string list" where
  "object_prototype_names =
     [''constructor'', ''__defineGetter__'', ''__defineSetter__'', ''hasOwnProperty'',
      ''__lookupGetter__'', ''__lookupSetter__'', ''isPrototypeOf'', ''propertyIsEnumerable'',
      ''toString'', ''valueOf'', ''__proto__'', ''toLocaleString'']"

datatype 'a property = Own 'a | Inherited | Absent

definition js_property :: "(string \<times> 'a) list \<Rightarrow> string \<Rightarrow> 'a property" where
  "js_property obj name =
     (case map_of obj name of
        Some v \<Rightarrow> Own v
      | None \<Rightarrow> if name \<in> set object_prototype_names then Inherited else Absent)"

text \<open>
  \<^verbatim>\<open>assigned = users.map(u=>u.id)\<close>, the members of the department when it is named
  and exists, then the deduplication; the second component is \<^verbatim>\<open>deptTag\<close>. For an
  inherited property \<^verbatim>\<open>assigned.push(...departments[department])\<close> throws.
\<close>

definition resolve_assignees ::
  "(string \<times> uid list) list \<Rightarrow> string option \<Rightarrow> mentionable list
     \<Rightarrow> error + (uid list \<times> string option)" where
  "resolve_assignees departments dept users =
     (let assigned = map mention_id users in
      case dept of
        None \<Rightarrow> Inr (dedup assigned, None)
      | Some d \<Rightarrow>
          if d = [] then Inr (dedup assigned, None)
          else (case js_property departments d of
                  Absent \<Rightarrow> Inr (dedup assigned, None)
                | Inherited \<Rightarrow> Inl InternalError
                | Own members \<Rightarrow> Inr (dedup (assigned @ members), Some d)))"

definition task_assign ::
  "(string \<Rightarrow> int option) \<Rightarrow> (string \<times> uid list) list \<Rightarrow> bool \<Rightarrow> string \<Rightarrow> string
     \<Rightarrow> string option \<Rightarrow> string option \<Rightarrow> string option \<Rightarrow> mentionable list \<Rightarrow> int
     \<Rightarrow> store \<Rightarrow> error option \<times> store" where
  "task_assign parseDate departments priv user_name ttl descr dueStr dept users now s =
     (if \<not> priv then (Some Forbidden, s)
      else
        (case resolve_assignees departments dept users of
           Inl e \<Rightarrow> (Some e, s)
         | Inr (assigned, deptTag) \<Rightarrow>
             if assigned = [] then (Some EmptyAssignment, s)
             else
               (let t = \<lparr>task_id = now, title = ttl,
                          description = (case descr of None \<Rightarrow> [] | Some d \<Rightarrow> d),
                          due = parseDue parseDate dueStr, status = ''Pending'',
                          createdBy = user_name, assignedTo = assigned, department = deptTag,
                          logs = [\<lparr>date = now, action = ''Assigned by '' @ user_name\<rparr>],
                          remindersSent = []\<rparr>
                in (None, \<lparr>heap = heap s @ [t],
                           tasks = fold (\<lambda>u ts. push_task u (length (heap s)) ts) assigned
                                     (tasks s)\<rparr>))))"

text \<open>
  The target of \<^verbatim>\<open>/task-update\<close> and \<^verbatim>\<open>/task-delete\<close>: by id when the id is given
  and found (\<^verbatim>\<open>id ? findTaskById(id) : null\<close>; the id 0 is falsy), else by position in
  the deduplicated list (privileged, \<^verbatim>\<open>index\<close> truthy) or in the caller's own list.
\<close>

definition found_by_id :: "store \<Rightarrow> int option \<Rightarrow> (uid \<times> nat \<times> addr) option" where
  "found_by_id s ident =
     (case ident of
        None \<Rightarrow> None
      | Some i \<Rightarrow> if i = 0 then None else findTaskById s i)"

definition resolve ::
  "store \<Rightarrow> uid \<Rightarrow> bool \<Rightarrow> int option \<Rightarrow> int option \<Rightarrow> error + (uid \<times> nat \<times> addr)" where
  "resolve s user_id priv ident index =
     (let found = found_by_id s ident
      in case found of
           Some f \<Rightarrow> Inr f
         | None \<Rightarrow>
             if index \<noteq> None \<and> index \<noteq> Some 0 \<and> priv then
               (let all = getAllTasksUnique s; ix = the index in
                if ix < 1 \<or> int (length all) < ix then Inl NotFound
                else (case findTaskById s (task_id (snd (all ! nat (ix - 1)))) of
                        None \<Rightarrow> Inl NotFound
                      | Some f \<Rightarrow> Inr f))
             else
               (let ulist = (case map_of (tasks s) user_id of None \<Rightarrow> [] | Some l \<Rightarrow> l) in
                case index of
                  None \<Rightarrow> Inl NotFound
                | Some ix \<Rightarrow>
                    if ix = 0 \<or> ix < 1 \<or> int (length ulist) < ix then Inl NotFound
                    else Inr (user_id, nat (ix - 1), ulist ! nat (ix - 1))))"

definition valid :: "string list" where
  "valid = [''Pending'', ''In Progress'', ''Done'', ''Blocked'', ''Overdue'']"

text \<open>\<^verbatim>\<open>tasks.get(found.userId)[found.index] = found.task\<close>\<close>

definition write_back :: "uid \<Rightarrow> nat \<Rightarrow> addr \<Rightarrow> (uid \<times> addr list) list \<Rightarrow> (uid \<times> addr list) list" where
  "write_back u idx a ts =
     (case map_of ts u of
        None \<Rightarrow> ts
      | Some l \<Rightarrow> map_set u (l[idx := a]) ts)"

definition task_update ::
  "uid \<Rightarrow> string \<Rightarrow> bool \<Rightarrow> int option \<Rightarrow> int option \<Rightarrow> string \<Rightarrow> int
     \<Rightarrow> store \<Rightarrow> error option \<times> store" where
  "task_update user_id user_name priv ident index st now s =
     (case resolve s user_id priv ident index of
        Inl e \<Rightarrow> (Some e, s)
      | Inr (u, idx, a) \<Rightarrow>
          if \<not> priv \<and> user_id \<notin> set (assignedTo (heap s ! a)) then (Some Forbidden, s)
          else if st \<notin> set valid then (Some InvalidStatus, s)
          else
            (let t = heap s ! a;
                 t' = t\<lparr>status := st,
                        logs := logs t @ [\<lparr>date = now,
                                           action = ''Status set to '' @ st @ '' by '' @ user_name\<rparr>]\<rparr>
             in (None, \<lparr>heap = (heap s)[a := t'], tasks = write_back u idx a (tasks s)\<rparr>)))"

subsection \<open>The assignee list of the older draft (\<^verbatim>\<open>src/index.js\<close>)\<close>

text \<open>
  The lines of its \<^verbatim>\<open>/task-assign\<close> handler that compute \<^verbatim>\<open>assignedTo\<close>, for a privileged
  caller. There \<^verbatim>\<open>userIds = users.map(u => u.id)\<close> is computed and not used:
  \<^verbatim>\<open>assignedIds = [...users]\<close> holds the mentionable objects themselves, the ids of
  the department's members are pushed after them, and the \<^verbatim>\<open>Set\<close> compares an object
  with an id string as different values. This handler has no \<^verbatim>\<open>catch\<close>: when the spread
  of an inherited property throws, the handler ends there, which is \<open>InternalError\<close> here.
\<close>

datatype assignee = Obj mentionable | Str uid

fun ident_of :: "assignee \<Rightarrow> uid" where
  "ident_of (Obj m) = mention_id m"
| "ident_of (Str u) = u"

definition assignedIds_index_js ::
  "(string \<times> uid list) list \<Rightarrow> string option \<Rightarrow> mentionable list \<Rightarrow> error + assignee list" where
  "assignedIds_index_js departments dept users =
     (let assignedIds = map Obj users in
      case (case dept of
              None \<Rightarrow> Inr assignedIds
            | Some d \<Rightarrow>
                if d = [] then Inr assignedIds
                else (case js_property departments d of
                        Absent \<Rightarrow> Inr assignedIds
                      | Inherited \<Rightarrow> Inl InternalError
                      | Own members \<Rightarrow> Inr (assignedIds @ map Str members))) of
        Inl e \<Rightarrow> Inl e
      | Inr assignedIds' \<Rightarrow>
          (let assignedIds'' = dedup assignedIds'
           in if length assignedIds'' = 0 then Inl EmptyAssignment else Inr assignedIds''))"

subsection \<open>Start-up reconciliation\<close>

definition mark_overdue :: "int \<Rightarrow> task \<Rightarrow> task" where
  "mark_overdue now t =
     (case due t of
        None \<Rightarrow> t
      | Some d \<Rightarrow>
          if status t \<noteq> ''Done'' then
            (if d < now \<and> status t \<noteq> ''Overdue'' then
               t\<lparr>status := ''Overdue'',
                 logs := logs t @ [\<lparr>date = now, action = ''Auto-marked overdue on startup''\<rparr>]\<rparr>
             else t)
          else t)"

fun ready_loop :: "int \<Rightarrow> addr list \<Rightarrow> task list \<Rightarrow> task list" where
  "ready_loop now [] h = h"
| "ready_loop now (a # as) h = ready_loop now as (h[a := mark_overdue now (h ! a)])"

definition client_ready :: "int \<Rightarrow> store \<Rightarrow> store" where
  "client_ready now s = s\<lparr>heap := ready_loop now (map snd (entries s)) (heap s)\<rparr>"

subsection \<open>The reminder scan\<close>

record window =
  key :: string
  mins :: jsnum

definition windows_of :: "string list option \<Rightarrow> window list" where
  "windows_of reminders =
     filter (\<lambda>x. mins x \<noteq> NaN)
       (map (\<lambda>w. \<lparr>key = w, mins = parseWindowToMinutes w\<rparr>)
          (case reminders of None \<Rightarrow> [''24h'', ''1h''] | Some r \<Rightarrow> r))"

text \<open>
  \<^verbatim>\<open>diffMins<=w.mins\<close> for a finite \<^verbatim>\<open>diffMins\<close>: \<^verbatim>\<open>null\<close> compares as 0, \<^verbatim>\<open>NaN\<close>
  never holds.
\<close>

definition le_jsnum :: "rat \<Rightarrow> jsnum \<Rightarrow> bool" where
  "le_jsnum x y =
     (case y of
        Num r \<Rightarrow> x \<le> r
      | Null \<Rightarrow> x \<le> 0
      | NaN \<Rightarrow> False
      | PosInf \<Rightarrow> True
      | NegInf \<Rightarrow> False)"

text \<open>One firing: the task, the threshold key, and the assignees it is sent to.\<close>

record notice =
  about :: int
  threshold :: string
  recipients :: "uid list"

fun window_loop :: "int \<Rightarrow> rat \<Rightarrow> window list \<Rightarrow> task \<Rightarrow> task \<times> notice list" where
  "window_loop now diffMins [] t = (t, [])"
| "window_loop now diffMins (w # ws) t =
     (if key w \<in> set (remindersSent t) then window_loop now diffMins ws t
      else if 0 < diffMins \<and> le_jsnum diffMins (mins w) then
        (let t' = t\<lparr>remindersSent := remindersSent t @ [key w],
                     logs := logs t @ [\<lparr>date = now,
                                        action = ''Reminder ('' @ key w @ '') sent''\<rparr>]\<rparr>;
             (t'', ns) = window_loop now diffMins ws t'
         in (t'', \<lparr>about = task_id t, threshold = key w, recipients = assignedTo t\<rparr> # ns))
      else window_loop now diffMins ws t)"

text \<open>
  The body of the scan for one task. \<^verbatim>\<open>(dueDate-now)/(1000*60)\<close> is a difference and a
  quotient of doubles, each rounded; for time values neither overflows.
\<close>

definition scan_task :: "int \<Rightarrow> window list \<Rightarrow> task \<Rightarrow> task \<times> notice list" where
  "scan_task now windows t =
     (case due t of
        None \<Rightarrow> (t, [])
      | Some d \<Rightarrow>
          if status t = ''Done'' then (t, [])
          else
            (let diffMins = double_round (double_round (of_int (d - now)) / (1000 * 60));
                 (t1, n1) =
                   (if diffMins < 0 \<and> ''overdue'' \<notin> set (remindersSent t) then
                      (t\<lparr>remindersSent := remindersSent t @ [''overdue''],
                         logs := logs t @ [\<lparr>date = now, action = ''Overdue reminder sent''\<rparr>]\<rparr>,
                       [\<lparr>about = task_id t, threshold = ''overdue'', recipients = assignedTo t\<rparr>])
                    else (t, []));
                 (t2, n2) = window_loop now diffMins windows t1
             in (t2, n1 @ n2)))"

fun scan_loop :: "int \<Rightarrow> window list \<Rightarrow> addr list \<Rightarrow> task list \<Rightarrow> task list \<times> notice list" where
  "scan_loop now ws [] h = (h, [])"
| "scan_loop now ws (a # as) h =
     (let (t', ns) = scan_task now ws (h ! a);
          (h', ns') = scan_loop now ws as (h[a := t'])
      in (h', ns @ ns'))"

text \<open>One run of the scheduled job: the store it leaves and the notices it fired, in order.\<close>

definition scheduled_scan :: "int \<Rightarrow> string list option \<Rightarrow> store \<Rightarrow> store \<times> notice list" where
  "scheduled_scan now reminders s =
     (let (h', ns) = scan_loop now (windows_of reminders) (map snd (entries s)) (heap s)
      in (s\<lparr>heap := h'\<rparr>, ns))"

subsection \<open>Persistence\<close>

text \<open>
  \<^verbatim>\<open>tasks.json\<close> holds, per assignee, the values of the tasks of that assignee's array
  (\<^verbatim>\<open>JSON.stringify(Object.fromEntries(tasks))\<close>); loading it
  (\<^verbatim>\<open>new Map(Object.entries(JSON.parse(...)))\<close>) makes a fresh object of every stored
  value. The keys are user ids, which are not array indices, so their order is kept.
\<close>

type_synonym tasks_json = "(uid \<times> task list) list"

definition saveTasks :: "store \<Rightarrow> tasks_json" where
  "saveTasks s = map (\<lambda>(u, l). (u, map (\<lambda>a. heap s ! a) l)) (tasks s)"

fun load_loop :: "tasks_json \<Rightarrow> store \<Rightarrow> store" where
  "load_loop [] s = s"
| "load_loop ((u, ts) # rest) s =
     load_loop rest
       \<lparr>heap = heap s @ ts,
        tasks = tasks s @ [(u, [length (heap s) ..< length (heap s) + length ts])]\<rparr>"

definition loadTasks :: "tasks_json \<Rightarrow> store" where
  "loadTasks d = load_loop d \<lparr>heap = [], tasks = []\<rparr>"

subsection \<open>Backups\<close>

text \<open>
  The backup directory is the list of its file names. \<open>isoStr\<close> is the clock's
  \<^verbatim>\<open>toISOString()\<close> at the backup; copying over an existing name leaves the directory's
  names as they are. \<^verbatim>\<open>files.sort()\<close> orders names by their characters.
\<close>

definition stamp :: "string \<Rightarrow> string" where
  "stamp isoStr = map (\<lambda>c. if c = CHR '':'' \<or> c = CHR ''.'' then CHR ''-'' else c) isoStr"

definition backup_name :: "string \<Rightarrow> string \<Rightarrow> string" where
  "backup_name base isoStr = base @ ''.'' @ stamp isoStr @ ''.bak.json''"

definition backupFile :: "nat \<Rightarrow> string \<Rightarrow> string \<Rightarrow> string list \<Rightarrow> string list" where
  "backupFile backupRetention base isoStr dir =
     (let dest = backup_name base isoStr;
          dir1 = (if dest \<in> set dir then dir else dir @ [dest]);
          files = filter (\<lambda>f. prefix (base @ ''.'') f) dir1;
          keep = (if backupRetention = 0 then 10 else backupRetention)
      in if keep < length files then
           (let remove = take (length files - keep) (sort files)
            in filter (\<lambda>f. f \<notin> set remove) dir1)
         else dir1)"

text \<open>Successive writes of one state file, each followed by its backup.\<close>

definition backups_after :: "nat \<Rightarrow> string \<Rightarrow> string list \<Rightarrow> string list \<Rightarrow> string list" where
  "backups_after backupRetention base isoStrs dir =
     fold (\<lambda>isoStr d. backupFile backupRetention base isoStr d) isoStrs dir"

subsection \<open>Example stores\<close>

text \<open>One task, overdue and pending, shared by two assignees.\<close>

definition overdue_store :: store where
  "overdue_store =
     \<lparr>heap = [\<lparr>task_id = 7, title = ''Report'', description = '''', due = Some 1000,
               status = ''Pending'', createdBy = ''ann'', assignedTo = [''u1'', ''u2''],
               department = None, logs = [\<lparr>date = 0, action = ''Assigned by ann''\<rparr>],
               remindersSent = []\<rparr>],
      tasks = [(''u1'', [0]), (''u2'', [0])]\<rparr>"

text \<open>
  Two tasks as a \<^verbatim>\<open>tasks.json\<close> can hold them: the first shared by \<^verbatim>\<open>u1\<close> and \<^verbatim>\<open>u2\<close>,
  the second assigned to \<^verbatim>\<open>u1\<close> and also filed under \<^verbatim>\<open>u3\<close>, who is not among its
  assignees.
\<close>

definition update_store :: store where
  "update_store =
     \<lparr>heap = [\<lparr>task_id = 7, title = ''Report'', description = [], due = None,
               status = ''Pending'', createdBy = ''ann'', assignedTo = [''u1'', ''u2''],
               department = None, logs = [\<lparr>date = 0, action = ''Assigned by ann''\<rparr>],
               remindersSent = []\<rparr>,
              \<lparr>task_id = 8, title = ''Slides'', description = [], due = None,
               status = ''Pending'', createdBy = ''ann'', assignedTo = [''u1''],
               department = None, logs = [\<lparr>date = 1, action = ''Created''\<rparr>],
               remindersSent = []\<rparr>],
      tasks = [(''u1'', [0, 1]), (''u2'', [0]), (''u3'', [1])]\<rparr>"


text \<open>
  The store after \<^verbatim>\<open>/task-assign\<close> of one task, due 50 minutes later, to two mentioned
  users: both collections hold the one task object.
\<close>

definition assigned_store :: store where
  "assigned_store =
     snd (task_assign (\<lambda>d. Some 1700003000000) [] True ''ann'' ''Report'' None
            (Some ''2023-11-14T23:03:20Z'') None
            [\<lparr>mention_id = ''u1'', username = ''ann''\<rparr>,
             \<lparr>mention_id = ''u2'', username = ''bob''\<rparr>]
            1700000000000 \<lparr>heap = [], tasks = []\<rparr>)"

text \<open>
  Three tasks of one user for the query \<^verbatim>\<open>foo\<close>, scanned in the order: match in the
  description only, query inside the title, title equal to the query.
\<close>

definition search_store :: store where
  "search_store =
     \<lparr>heap = [\<lparr>task_id = 1, title = ''Bar'', description = ''about foo'', due = None,
               status = ''Pending'', createdBy = ''ann'', assignedTo = [''u1''],
               department = None, logs = [], remindersSent = []\<rparr>,
              \<lparr>task_id = 2, title = ''Foobar'', description = [], due = None,
               status = ''Pending'', createdBy = ''ann'', assignedTo = [''u1''],
               department = None, logs = [], remindersSent = []\<rparr>,
              \<lparr>task_id = 3, title = ''FOO'', description = [], due = None,
               status = ''Pending'', createdBy = ''ann'', assignedTo = [''u1''],
               department = None, logs = [], remindersSent = []\<rparr>],
      tasks = [(''u1'', [0, 1, 2])]\<rparr>"

text \<open>Two tasks for the query \<^verbatim>\<open>aab\<close>: the title \<^verbatim>\<open>b\<close> is scanned before the title \<^verbatim>\<open>a\<close>.\<close>

definition tie_store :: store where
  "tie_store =
     \<lparr>heap = [\<lparr>task_id = 2, title = ''b'', description = [], due = None,
               status = ''Pending'', createdBy = ''ann'', assignedTo = [''u1''],
               department = None, logs = [], remindersSent = []\<rparr>,
              \<lparr>task_id = 1, title = ''a'', description = [], due = None,
               status = ''Pending'', createdBy = ''ann'', assignedTo = [''u1''],
               department = None, logs = [], remindersSent = []\<rparr>],
      tasks = [(''u1'', [0, 1])]\<rparr>"

section \<open>The Map of collections\<close>

lemma map_of_map_set: "map_of (map_set k v m) = (map_of m)(k \<mapsto> v)"
  by (induction m) (auto simp: fun_eq_iff)

lemma map_fst_map_set:
  "map fst (map_set k v m) = (if k \<in> fst ` set m then map fst m else map fst m @ [k])"
proof (induction m)
  case Nil
  then show ?case by simp
next
  case (Cons p m)
  obtain k' v' where p: "p = (k', v')" by (cases p)
  show ?case
  proof (cases "k' = k")
    case True
    then show ?thesis by (simp add: p)
  next
    case False
    then show ?thesis using Cons by (simp add: p)
  qed
qed

lemma distinct_map_set: "distinct (map fst m) \<Longrightarrow> distinct (map fst (map_set k v m))"
  by (simp add: map_fst_map_set)

lemma map_set_same: "map_of m k = Some v \<Longrightarrow> distinct (map fst m) \<Longrightarrow> map_set k v m = m"
proof (induction m)
  case Nil
  then show ?case by simp
next
  case (Cons p m)
  then show ?case by (cases p) (auto split: if_splits)
qed

lemma in_entries: "(u, a) \<in> set (entries s) \<longleftrightarrow> (\<exists>l. (u, l) \<in> set (tasks s) \<and> a \<in> set l)"
  by (auto simp: entries_def)

lemma in_entries_map_of:
  "map_of (tasks s) u = Some l \<Longrightarrow> a \<in> set l \<Longrightarrow> (u, a) \<in> set (entries s)"
  by (auto simp: in_entries dest: map_of_SomeD)

lemma map_of_push_task:
  "map_of (push_task u a ts)
     = (map_of ts)(u \<mapsto> (case map_of ts u of None \<Rightarrow> [] | Some l \<Rightarrow> l) @ [a])"
  by (simp add: push_task_def map_of_map_set split: option.splits)

section \<open>The scan loop\<close>

lemma scan_task_no_due: "due t = None \<Longrightarrow> scan_task now ws t = (t, [])"
  by (simp add: scan_task_def)

lemma scan_loop_Cons_fst:
  "fst (scan_loop now ws (a # as) h)
     = fst (scan_loop now ws as (h[a := fst (scan_task now ws (h ! a))]))"
  by (simp split: prod.splits)

lemma scan_loop_Cons_snd:
  "snd (scan_loop now ws (a # as) h)
     = snd (scan_task now ws (h ! a))
       @ snd (scan_loop now ws as (h[a := fst (scan_task now ws (h ! a))]))"
  by (simp split: prod.splits)

lemma scan_loop_length: "length (fst (scan_loop now ws as h)) = length h"
  by (induction as arbitrary: h) (simp_all add: scan_loop_Cons_fst del: scan_loop.simps(2))

lemma scan_loop_no_due:
  "b < length h \<Longrightarrow> due (h ! b) = None \<Longrightarrow> fst (scan_loop now ws as h) ! b = h ! b"
proof (induction as arbitrary: h)
  case Nil
  then show ?case by simp
next
  case (Cons a as)
  let ?h = "h[a := fst (scan_task now ws (h ! a))]"
  have same: "?h ! b = h ! b"
  proof (cases "a = b")
    case True
    with Cons.prems show ?thesis by (simp add: scan_task_no_due)
  next
    case False
    then show ?thesis by simp
  qed
  have "fst (scan_loop now ws as ?h) ! b = ?h ! b"
    using Cons.prems same by (intro Cons.IH) simp_all
  with same show ?case by (simp only: scan_loop_Cons_fst)
qed

section \<open>Deduplication and lookup by id\<close>

lemma unique_loop_ids:
  "set (map (\<lambda>x. task_id (snd x)) (unique_loop h es seen))
     = set (map (\<lambda>(u, a). task_id (h ! a)) es) - set seen"
  by (induction h es seen rule: unique_loop.induct) auto

lemma unique_loop_distinct:
  "distinct (map (\<lambda>x. task_id (snd x)) (unique_loop h es seen))"
proof (induction h es seen rule: unique_loop.induct)
  case (1 h seen)
  then show ?case by simp
next
  case (2 h u a rest seen)
  have "task_id (h ! a) \<notin> set (map (\<lambda>x. task_id (snd x)) (unique_loop h rest (task_id (h ! a) # seen)))"
    by (simp only: unique_loop_ids) simp
  with 2 show ?case by auto
qed

lemma unique_loop_first:
  "x \<in> set (unique_loop h es seen) \<Longrightarrow>
     find (\<lambda>y. task_id (snd y) = task_id (snd x)) (map (\<lambda>(u, a). (u, h ! a)) es) = Some x"
proof (induction h es seen rule: unique_loop.induct)
  case (1 h seen)
  then show ?case by simp
next
  case (2 h u a rest seen)
  show ?case
  proof (cases "task_id (h ! a) \<in> set seen")
    case True
    with 2 have x: "x \<in> set (unique_loop h rest seen)" by simp
    then have "task_id (snd x) \<in> set (map (\<lambda>x. task_id (snd x)) (unique_loop h rest seen))"
      by force
    then have "task_id (snd x) \<notin> set seen" by (simp only: unique_loop_ids) simp
    with True have "task_id (h ! a) \<noteq> task_id (snd x)" by auto
    with 2 True x show ?thesis by simp
  next
    case False
    show ?thesis
    proof (cases "x = (u, h ! a)")
      case True
      then show ?thesis by simp
    next
      case ne: False
      with 2 False have x: "x \<in> set (unique_loop h rest (task_id (h ! a) # seen))" by simp
      then have "task_id (snd x)
          \<in> set (map (\<lambda>x. task_id (snd x)) (unique_loop h rest (task_id (h ! a) # seen)))"
        by force
      then have "task_id (snd x) \<notin> set (task_id (h ! a) # seen)"
        by (simp only: unique_loop_ids) simp
      then have "task_id (h ! a) \<noteq> task_id (snd x)" by auto
      with 2 False x show ?thesis by simp
    qed
  qed
qed

lemma findIndex_None: "findIndex P l = None \<longleftrightarrow> (\<forall>x \<in> set l. \<not> P x)"
  by (induction l) auto

lemma findIndex_Some:
  "findIndex P l = Some i \<Longrightarrow> i < length l \<and> P (l ! i) \<and> (\<forall>j < i. \<not> P (l ! j))"
proof (induction l arbitrary: i)
  case Nil
  then show ?case by simp
next
  case (Cons x xs)
  show ?case
  proof (cases "P x")
    case True
    with Cons.prems show ?thesis by simp
  next
    case False
    with Cons.prems obtain k where k: "findIndex P xs = Some k" "i = Suc k" by auto
    from Cons.IH[OF k(1)] False k(2) show ?thesis
      by (auto simp: nth_Cons split: nat.splits)
  qed
qed

lemma find_map_first:
  assumes "findIndex P l = Some i" "\<And>a. Q (f a) = P a"
  shows "find Q (map f l @ rest) = Some (f (l ! i))"
  using assms(1)
proof (induction l arbitrary: i)
  case Nil
  then show ?case by simp
next
  case (Cons x xs)
  then show ?case by (cases "P x") (auto simp: assms(2))
qed

lemma find_map_none:
  assumes "findIndex P l = None" "\<And>a. Q (f a) = P a"
  shows "find Q (map f l @ rest) = find Q rest"
  using assms(1)
proof (induction l)
  case Nil
  then show ?case by simp
next
  case (Cons x xs)
  then show ?case by (cases "P x") (auto simp: assms(2))
qed

text \<open>\<^verbatim>\<open>findTaskById\<close> returns the first stored entry, in scan order, with the id.\<close>

lemma find_loop_first:
  "map_option (\<lambda>(u, idx, a). (u, h ! a)) (find_loop h i ts)
     = find (\<lambda>y. task_id (snd y) = i) (concat (map (\<lambda>(u, l). map (\<lambda>a. (u, h ! a)) l) ts))"
proof (induction h i ts rule: find_loop.induct)
  case (1 h i)
  then show ?case by simp
next
  case (2 h i u l rest)
  show ?case
  proof (cases "findIndex (\<lambda>a. task_id (h ! a) = i) l")
    case None
    then show ?thesis
      using 2 find_map_none[OF None, of "\<lambda>y. task_id (snd y) = i" "\<lambda>a. (u, h ! a)"]
      by simp
  next
    case (Some idx)
    then show ?thesis
      using find_map_first[OF Some, of "\<lambda>y. task_id (snd y) = i" "\<lambda>a. (u, h ! a)"]
      by simp
  qed
qed

lemma scanned_concat:
  "scanned s = concat (map (\<lambda>(u, l). map (\<lambda>a. (u, heap s ! a)) l) (tasks s))"
  by (simp add: scanned_def entries_def map_concat comp_def case_prod_unfold)

lemma findTaskById_first:
  "map_option (\<lambda>(u, idx, a). (u, heap s ! a)) (findTaskById s i)
     = find (\<lambda>y. task_id (snd y) = i) (scanned s)"
  by (simp add: findTaskById_def find_loop_first scanned_concat)

lemma find_loop_Some:
  "find_loop h i ts = Some (u, idx, a) \<Longrightarrow>
     \<exists>l. (u, l) \<in> set ts \<and> idx < length l \<and> l ! idx = a \<and> task_id (h ! a) = i"
proof (induction h i ts rule: find_loop.induct)
  case (1 h i)
  then show ?case by simp
next
  case (2 h i u' l rest)
  show ?case
  proof (cases "findIndex (\<lambda>a. task_id (h ! a) = i) l")
    case None
    with 2 show ?thesis by auto
  next
    case (Some k)
    with 2 have "u = u'" "idx = k" "a = l ! k" by auto
    with findIndex_Some[OF Some] show ?thesis by auto
  qed
qed

lemma wf_map_of: "wf s \<Longrightarrow> (u, l) \<in> set (tasks s) \<Longrightarrow> map_of (tasks s) u = Some l"
  by (simp add: wf_def)

lemma wf_addr: "wf s \<Longrightarrow> (u, a) \<in> set (entries s) \<Longrightarrow> a < length (heap s)"
  by (auto simp: wf_def list_all_iff)

lemma findTaskById_Some:
  assumes "wf s" "findTaskById s i = Some (u, idx, a)"
  shows "\<exists>l. map_of (tasks s) u = Some l \<and> idx < length l \<and> l ! idx = a"
    and "a < length (heap s)" and "task_id (heap s ! a) = i" and "(u, a) \<in> set (entries s)"
proof -
  from find_loop_Some[OF assms(2)[unfolded findTaskById_def]]
  obtain l where l: "(u, l) \<in> set (tasks s)" "idx < length l" "l ! idx = a"
    and i: "task_id (heap s ! a) = i" by blast
  show "\<exists>l. map_of (tasks s) u = Some l \<and> idx < length l \<and> l ! idx = a"
    using wf_map_of[OF assms(1) l(1)] l by blast
  show "task_id (heap s ! a) = i" by (rule i)
  show ua: "(u, a) \<in> set (entries s)"
    using l by (auto simp: in_entries)
  show "a < length (heap s)" using wf_addr[OF assms(1) ua] .
qed

lemma write_back_same:
  assumes "distinct (map fst ts)" "map_of ts u = Some l" "l ! idx = a"
  shows "write_back u idx a ts = ts"
proof -
  have "l[idx := a] = l" using assms(3) by (metis list_update_id)
  then show ?thesis using assms(1,2) by (simp add: write_back_def map_set_same)
qed

section \<open>Doubles and decimal literals\<close>

lemma round_even_of_int: "round_even (of_int n) = n"
  by (simp add: round_even_def)

lemma floor_rat_numeral: "\<lfloor>(numeral a :: rat) / numeral b\<rfloor> = numeral a div numeral b"
  using floor_divide_of_int_eq[of "numeral a" "numeral b", where ?'a = rat] by simp

lemma find_rev_upto_greatest:
  fixes P :: "int \<Rightarrow> bool"
  assumes "i \<le> e" "e \<le> j" "P e" "\<forall>y. e < y \<and> y \<le> j \<longrightarrow> \<not> P y"
  shows "find P (rev [i..j]) = Some e"
  using assms
proof (induction "nat (j - e)" arbitrary: j)
  case 0
  then have "j = e" by simp
  with 0 show ?case by (simp add: upto_rec2)
next
  case (Suc n)
  then have lt: "e < j" by linarith
  with Suc.prems have nP: "\<not> P j" by simp
  have n: "n = nat ((j - 1) - e)" using Suc.hyps(2) by linarith
  have ih: "find P (rev [i..j - 1]) = Some e"
    using Suc.hyps(1)[OF n] Suc.prems lt by simp
  have "i \<le> j" using Suc.prems by linarith
  then have "[i..j] = [i..j - 1] @ [j]" by (rule upto_rec2)
  then show ?case using nP ih by simp
qed

lemma double_exponent_cases:
  "double_exponent a = - 1074 \<or> 2 powi (double_exponent a + 52) \<le> a"
proof (cases "find (\<lambda>e. 2 powi (e + 52) \<le> a) (rev [- 1074..971])")
  case None
  show ?thesis by (simp only: double_exponent_def None option.case simp_thms)
next
  case (Some e)
  have "2 powi (e + 52) \<le> a" using Some unfolding find_Some_iff by blast
  then show ?thesis by (simp only: double_exponent_def Some option.case simp_thms)
qed

lemma double_exponent_eq:
  assumes "- 1074 \<le> e" "e \<le> 971" "2 powi (e + 52) \<le> a" "a < 2 powi (e + 53)"
  shows "double_exponent a = e"
proof -
  have "\<forall>y. e < y \<and> y \<le> 971 \<longrightarrow> \<not> 2 powi (y + 52) \<le> a"
  proof (intro allI impI)
    fix y :: int
    assume "e < y \<and> y \<le> 971"
    then have "e + 53 \<le> y + 52" by simp
    then have "(2::rat) powi (e + 53) \<le> 2 powi (y + 52)"
      by (intro power_int_increasing) simp_all
    with assms(4) show "\<not> 2 powi (y + 52) \<le> a" by simp
  qed
  then have f: "find (\<lambda>e. 2 powi (e + 52) \<le> a) (rev [- 1074..971]) = Some e"
    using assms(1,2,3) by (rule find_rev_upto_greatest[rotated 3])
  show ?thesis by (simp only: double_exponent_def f option.case)
qed

text \<open>A rational \<open>N * 2 ^ j\<close> with \<open>\<bar>N\<bar> < 2 ^ 53\<close> and \<open>- 1074 \<le> j\<close> is not changed by rounding.\<close>

lemma double_round_exact:
  assumes N: "\<bar>N\<bar> < 2 ^ 53" and j: "- 1074 \<le> j"
  shows "double_round (of_int N * 2 powi j) = of_int N * 2 powi j"
proof -
  define a :: rat where "a = \<bar>of_int N * 2 powi j\<bar>"
  define e where "e = double_exponent a"
  have pos: "\<And>k. (0::rat) < 2 powi k" by simp
  have a: "a = of_int \<bar>N\<bar> * 2 powi j"
    using pos[of j] by (simp add: a_def abs_mult)
  have ej: "e \<le> j"
  proof -
    from double_exponent_cases[of a] consider "e = - 1074" | "2 powi (e + 52) \<le> a"
      unfolding e_def by blast
    then show ?thesis
    proof cases
      case 1
      then show ?thesis using j by simp
    next
      case 2
      have "(of_int \<bar>N\<bar> :: rat) < of_int (2 ^ 53)" using N by (simp only: of_int_less_iff)
      then have "(of_int \<bar>N\<bar> :: rat) < 2 ^ 53" by simp
      then have "a < 2 ^ 53 * 2 powi j" unfolding a using pos[of j] by (simp only: mult_strict_right_mono)
      also have "\<dots> = 2 powi (53 + j)" by (simp add: power_int_add)
      finally have lt: "2 powi (e + 52) < (2::rat) powi (53 + j)" using 2 by simp
      show ?thesis
      proof (rule ccontr)
        assume "\<not> e \<le> j"
        then have "53 + j \<le> e + 52" by simp
        then have "(2::rat) powi (53 + j) \<le> 2 powi (e + 52)"
          by (intro power_int_increasing) simp_all
        with lt show False by simp
      qed
    qed
  qed
  have q: "a / 2 powi e = of_int (\<bar>N\<bar> * 2 ^ nat (j - e))"
  proof -
    have "a / 2 powi e = of_int \<bar>N\<bar> * 2 powi (j - e)"
      unfolding a by (simp add: power_int_diff)
    also have "(2::rat) powi (j - e) = 2 ^ nat (j - e)"
      using ej by (simp add: power_int_def)
    finally show ?thesis by simp
  qed
  have v: "of_int (round_even (a / 2 powi e)) * 2 powi e = a"
  proof -
    have "of_int (round_even (a / 2 powi e)) * 2 powi e = (a / 2 powi e) * 2 powi e"
      by (simp only: q round_even_of_int)
    also have "\<dots> = a" using pos[of e] by simp
    finally show ?thesis .
  qed
  have sgn: "(of_int N * 2 powi j < (0::rat)) = (N < 0)"
    using mult_less_cancel_right_pos[OF pos[of j], of "of_int N" 0] by simp
  have "double_round (of_int N * 2 powi j) = (if N < 0 then - a else a)"
    unfolding double_round_def Let_def a_def[symmetric] e_def[symmetric] v sgn ..
  also have "\<dots> = of_int N * 2 powi j"
    by (simp add: a abs_if)
  finally show ?thesis .
qed

lemma to_double_exact:
  assumes N: "\<bar>N\<bar> < 2 ^ 53" and j: "- 1074 \<le> j" "j \<le> 971"
  shows "to_double (of_int N * 2 powi j) = Num (of_int N * 2 powi j)"
proof -
  have pos: "\<And>k. (0::rat) < 2 powi k" by simp
  have "(of_int \<bar>N\<bar> :: rat) < of_int (2 ^ 53)" using N by (simp only: of_int_less_iff)
  then have "(of_int \<bar>N\<bar> :: rat) < 2 ^ 53" by simp
  then have "of_int \<bar>N\<bar> * 2 powi j < (2::rat) ^ 53 * 2 powi j"
    using pos[of j] by (simp only: mult_strict_right_mono)
  also have "\<dots> = 2 powi (53 + j)" by (simp add: power_int_add)
  also have "\<dots> \<le> 2 powi 1024" using j by (intro power_int_increasing) simp_all
  finally have "\<bar>of_int N * 2 powi j :: rat\<bar> < 2 powi 1024"
    using pos[of j] by (simp add: abs_mult)
  then show ?thesis
    by (simp add: to_double_def double_round_exact[OF N j(1)])
qed

lemma to_double_int: "\<bar>N\<bar> < 2 ^ 53 \<Longrightarrow> to_double (of_int N) = Num (of_int N)"
  using to_double_exact[of N 0] by simp

lemma double_round_int: "\<bar>N\<bar> < 2 ^ 53 \<Longrightarrow> double_round (of_int N) = of_int N"
  using double_round_exact[of N 0] by simp

lemma to_double_dyadic:
  assumes "\<bar>N\<bar> < 2 ^ 53" "k \<le> 1074"
  shows "to_double (of_int N / 2 ^ k) = Num (of_int N / 2 ^ k)"
proof -
  have "(of_int N :: rat) / 2 ^ k = of_int N * 2 powi (- int k)"
    by (simp add: power_int_minus field_simps)
  then show ?thesis using to_double_exact[of N "- int k"] assms by simp
qed

text \<open>The product of a dyadic double and an integer constant that is itself a double.\<close>

lemma js_times_dyadic:
  assumes "\<bar>N\<bar> * K < 2 ^ 53" "0 < K" "k \<le> 1074"
  shows "js_times (to_double (of_int N / 2 ^ k)) (of_int K) = Num (of_int N / 2 ^ k * of_int K)"
proof -
  have "\<bar>N\<bar> * 1 \<le> \<bar>N\<bar> * K" using assms(2) by (intro mult_left_mono) simp_all
  then have N: "\<bar>N\<bar> < 2 ^ 53" using assms(1) by simp
  have NK: "\<bar>N * K\<bar> < 2 ^ 53" using assms(1,2) by (simp add: abs_mult)
  have "(of_int N :: rat) / 2 ^ k * of_int K = of_int (N * K) / 2 ^ k" by simp
  then show ?thesis
    using to_double_dyadic[OF N assms(3)] to_double_dyadic[OF NK assms(3)]
    by (simp add: js_times_def)
qed

text \<open>Rounding in the binade \<open>2 ^ (e + 52) \<le> \<bar>x\<bar> < 2 ^ (e + 53)\<close>.\<close>

lemma double_round_normal:
  assumes "- 1074 \<le> e" "e \<le> 971" "2 powi (e + 52) \<le> \<bar>x\<bar>" "\<bar>x\<bar> < 2 powi (e + 53)"
  shows "double_round x
           = (if x < 0 then - 1 else 1) * of_int (round_even (\<bar>x\<bar> / 2 powi e)) * 2 powi e"
  unfolding double_round_def Let_def double_exponent_eq[OF assms] by simp

lemma digit_not_space: "is_digit c \<Longrightarrow> \<not> is_space c"
  by (auto simp: is_digit_def is_space_def)

lemma digit_lower: "is_digit c \<Longrightarrow> lower_char c = c"
  by (auto simp: is_digit_def lower_char_def is_upper_def)

lemma digit_not_mark:
  assumes "is_digit c"
  shows "c \<noteq> CHR ''-''" "c \<noteq> CHR ''+''" "c \<noteq> CHR ''.''"
    "c \<noteq> CHR ''h''" "c \<noteq> CHR ''m''" "c \<noteq> CHR ''d''"
  using assms by (auto simp: is_digit_def)

lemma unit_chars:
  "\<not> is_digit CHR ''h''" "\<not> is_digit CHR ''m''" "\<not> is_digit CHR ''d''" "\<not> is_digit CHR ''.''"
  by (simp_all add: is_digit_def)

lemma dec_value_Nil: "dec_value [] = 0"
  by (simp add: dec_value_def)

lemma dropWhile_hd: "s \<noteq> [] \<Longrightarrow> \<not> P (hd s) \<Longrightarrow> dropWhile P s = s"
  by (cases s) auto

lemma digits_prefix:
  assumes "list_all is_digit ds" "r = [] \<or> \<not> is_digit (hd r)"
  shows "takeWhile is_digit (ds @ r) = ds" "dropWhile is_digit (ds @ r) = r"
proof -
  have all: "\<forall>x\<in>set ds. is_digit x" using assms(1) by (simp add: list_all_iff)
  have "takeWhile is_digit r = []" "dropWhile is_digit r = r"
    using assms(2) by (cases r; auto)+
  then show "takeWhile is_digit (ds @ r) = ds" "dropWhile is_digit (ds @ r) = r"
    using all by (simp_all add: takeWhile_append2 dropWhile_append2)
qed

text \<open>
  The exponent part \<^verbatim>\<open>e\<close>, sign \<open>sg\<close>, digits \<open>es\<close> of a literal, or no exponent part when
  \<open>es\<close> is empty.
\<close>

lemma exponent_part:
  assumes es: "list_all is_digit es" and sg: "sg = [] \<or> sg = ''+'' \<or> sg = ''-''"
    and suf: "suf = [] \<or> (\<not> is_digit (hd suf) \<and> hd suf \<noteq> CHR ''e'' \<and> hd suf \<noteq> CHR ''E'')"
  shows "exponent ((if es = [] then [] else CHR ''e'' # sg @ es) @ suf)
           = (if sg = ''-'' then - dec_value es else dec_value es)"
proof (cases "es = []")
  case True
  have "exponent suf = 0" using suf by (cases suf) (auto simp: exponent_def)
  then show ?thesis using True by (simp add: dec_value_Nil)
next
  case False
  have sf: "suf = [] \<or> \<not> is_digit (hd suf)" using suf by auto
  have tw: "takeWhile is_digit (es @ suf) = es" using digits_prefix(1)[OF es sf] .
  obtain c cs where c: "es = c # cs" using False by (cases es) auto
  then have dc: "is_digit c" using es by simp
  from sg consider "sg = []" | "sg = ''+''" | "sg = ''-''" by blast
  then show ?thesis
  proof cases
    case 1
    have "exponent (CHR ''e'' # es @ suf) = dec_value (takeWhile is_digit (es @ suf))"
      using digit_not_mark(1,2)[OF dc] by (simp add: exponent_def c)
    then show ?thesis using False 1 tw by simp
  next
    case 2
    have "exponent (CHR ''e'' # CHR ''+'' # es @ suf) = dec_value (takeWhile is_digit (es @ suf))"
      by (simp add: exponent_def)
    then show ?thesis using False 2 tw by simp
  next
    case 3
    have "exponent (CHR ''e'' # CHR ''-'' # es @ suf) = - dec_value (takeWhile is_digit (es @ suf))"
      by (simp add: exponent_def)
    then show ?thesis using False 3 tw by simp
  qed
qed

text \<open>
  \<^verbatim>\<open>parseFloat\<close> on an unsigned decimal literal: digits \<open>ds\<close>, an optional fraction \<open>fs\<close>
  and an optional exponent part, followed by text that does not continue the literal.
\<close>

lemma parseFloat_literal:
  assumes ne: "ds \<noteq> [] \<or> fs \<noteq> []"
    and ds: "list_all is_digit ds" and fs: "list_all is_digit fs" and es: "list_all is_digit es"
    and sg: "sg = [] \<or> sg = ''+'' \<or> sg = ''-''"
    and suf: "suf = [] \<or> (\<not> is_digit (hd suf) \<and> hd suf \<noteq> CHR ''.''
                \<and> hd suf \<noteq> CHR ''e'' \<and> hd suf \<noteq> CHR ''E'')"
  shows "parseFloat (ds @ (if fs = [] then [] else CHR ''.'' # fs)
                        @ (if es = [] then [] else CHR ''e'' # sg @ es) @ suf)
           = to_double ((of_int (dec_value ds) + of_int (dec_value fs) / 10 ^ length fs)
                        * 10 powi (if sg = ''-'' then - dec_value es else dec_value es))"
proof -
  let ?x = "(if es = [] then [] else CHR ''e'' # sg @ es) @ suf"
  let ?r = "(if fs = [] then [] else CHR ''.'' # fs) @ ?x"
  let ?s = "ds @ ?r"
  have sne: "?s \<noteq> []" using ne by auto
  have hds: "is_digit (hd ?s) \<or> hd ?s = CHR ''.''"
  proof (cases ds)
    case Nil
    then show ?thesis using ne by simp
  next
    case (Cons c cs)
    then show ?thesis using ds by simp
  qed
  then have nsp: "\<not> is_space (hd ?s)" and nsg: "hd ?s \<noteq> CHR ''-''" "hd ?s \<noteq> CHR ''+''"
    using digit_not_space[of "hd ?s"] digit_not_mark(1,2)[of "hd ?s"]
    by (auto simp: is_space_def)
  have dw: "dropWhile is_space ?s = ?s" using sne nsp by (rule dropWhile_hd)
  have neg: "(?s \<noteq> [] \<and> hd ?s = CHR ''-'') = False" using nsg by simp
  have s1: "(if ?s \<noteq> [] \<and> (hd ?s = CHR ''-'' \<or> hd ?s = CHR ''+'') then tl ?s else ?s) = ?s"
    using nsg by simp
  have x: "?x = [] \<or> (\<not> is_digit (hd ?x) \<and> hd ?x \<noteq> CHR ''.'')"
    using suf by (auto simp: is_digit_def)
  have r: "?r = [] \<or> \<not> is_digit (hd ?r)" using x by (auto simp: unit_chars)
  have tw: "takeWhile is_digit ?s = ds" and drw: "dropWhile is_digit ?s = ?r"
    using digits_prefix[OF ds r] by simp_all
  have sf: "suf = [] \<or> (\<not> is_digit (hd suf) \<and> hd suf \<noteq> CHR ''e'' \<and> hd suf \<noteq> CHR ''E'')"
    using suf by auto
  note ex = exponent_part[OF es sg sf]
  show ?thesis
  proof (cases "fs = []")
    case True
    have dot: "(?r \<noteq> [] \<and> hd ?r = CHR ''.'') = False" using True x by auto
    have "parseFloat ?s = (if ds = [] \<and> ([]::string) = [] then NaN
        else to_double ((if False then - 1 else 1)
               * (of_int (dec_value ds) + of_int (dec_value []) / 10 ^ length ([]::string))
               * 10 powi (exponent ?r)))"
      by (simp only: parseFloat_def Let_def dw s1 neg tw drw dot if_False)
    then show ?thesis using True ne by (simp add: dec_value_Nil ex)
  next
    case False
    have dot: "(?r \<noteq> [] \<and> hd ?r = CHR ''.'') = True" using False by simp
    have tl: "tl ?r = fs @ ?x" using False by simp
    have x': "?x = [] \<or> \<not> is_digit (hd ?x)" using x by blast
    have tw2: "takeWhile is_digit (fs @ ?x) = fs" and drw2: "dropWhile is_digit (fs @ ?x) = ?x"
      using digits_prefix[OF fs x'] by simp_all
    have "parseFloat ?s = (if ds = [] \<and> fs = [] then NaN
        else to_double ((if False then - 1 else 1)
               * (of_int (dec_value ds) + of_int (dec_value fs) / 10 ^ length fs)
               * 10 powi (exponent ?x)))"
      by (simp only: parseFloat_def Let_def dw s1 neg tw drw dot tl tw2 drw2 if_True)
    then show ?thesis using False by (simp add: ex)
  qed
qed

text \<open>
  \<^verbatim>\<open>parseWindowToMinutes\<close> on a window whose trimmed, lower-cased text is such a literal
  followed by a unit letter or by nothing.
\<close>

lemma parseWindowToMinutes_literal:
  assumes ne: "ds \<noteq> [] \<or> fs \<noteq> []"
    and ds: "list_all is_digit ds" and fs: "list_all is_digit fs" and es: "list_all is_digit es"
    and sg: "sg = [] \<or> sg = ''+'' \<or> sg = ''-''"
    and w: "toLowerCase (trim w) = ds @ (if fs = [] then [] else CHR ''.'' # fs)
                                      @ (if es = [] then [] else CHR ''e'' # sg @ es) @ u"
    and v: "v = (of_int (dec_value ds) + of_int (dec_value fs) / 10 ^ length fs)
                * 10 powi (if sg = ''-'' then - dec_value es else dec_value es)"
  shows "u = ''d'' \<Longrightarrow> parseWindowToMinutes w = js_times (js_times (to_double v) 60) 24"
    and "u = ''h'' \<Longrightarrow> parseWindowToMinutes w = js_times (to_double v) 60"
    and "u = ''m'' \<Longrightarrow> parseWindowToMinutes w = to_double v"
    and "u = [] \<Longrightarrow> parseWindowToMinutes w = js_times (to_double v) 60"
proof -
  let ?lit = "ds @ (if fs = [] then [] else CHR ''.'' # fs)
                 @ (if es = [] then [] else CHR ''e'' # sg @ es)"
  have wne: "w \<noteq> []" using w ne by (auto simp: trim_def toLowerCase_def)
  have pf: "parseFloat (?lit @ suf) = to_double v" if "suf \<in> {''d'', ''h'', ''m'', []}" for suf
  proof -
    have "suf = [] \<or> (\<not> is_digit (hd suf) \<and> hd suf \<noteq> CHR ''.''
            \<and> hd suf \<noteq> CHR ''e'' \<and> hd suf \<noteq> CHR ''E'')"
      using that by (auto simp: unit_chars)
    from parseFloat_literal[OF ne ds fs es sg this] show ?thesis by (simp add: v)
  qed
  have litne: "?lit \<noteq> []" using ne by auto
  have lastd: "is_digit (last ?lit)"
  proof (cases "es = []")
    case False
    then show ?thesis using es by (simp add: list_all_iff)
  next
    case True
    show ?thesis
    proof (cases "fs = []")
      case False
      then show ?thesis using True fs by (simp add: list_all_iff)
    next
      case fsn: True
      then have "ds \<noteq> []" using ne by simp
      then show ?thesis using True fsn ds by (simp add: list_all_iff)
    qed
  qed
  {
    assume u: "u = ''d''"
    have "toLowerCase (trim w) = ?lit @ ''d''" using w u by simp
    then show "parseWindowToMinutes w = js_times (js_times (to_double v) 60) 24"
      using wne pf[of "''d''"] by (simp add: parseWindowToMinutes_def endsWith_def)
  }
  {
    assume u: "u = ''h''"
    have "toLowerCase (trim w) = ?lit @ ''h''" using w u by simp
    then show "parseWindowToMinutes w = js_times (to_double v) 60"
      using wne pf[of "''h''"] by (simp add: parseWindowToMinutes_def endsWith_def)
  }
  {
    assume u: "u = ''m''"
    have "toLowerCase (trim w) = ?lit @ ''m''" using w u by simp
    then show "parseWindowToMinutes w = to_double v"
      using wne pf[of "''m''"] by (simp add: parseWindowToMinutes_def endsWith_def)
  }
  {
    assume u: "u = []"
    have e: "toLowerCase (trim w) = ?lit" using w u by simp
    have "\<not> endsWith ?lit (CHR ''h'')" "\<not> endsWith ?lit (CHR ''m'')" "\<not> endsWith ?lit (CHR ''d'')"
      using digit_not_mark(4,5,6)[OF lastd] by (simp_all add: endsWith_def)
    then show "parseWindowToMinutes w = js_times (to_double v) 60"
      using wne pf[of "[]"] by (simp add: parseWindowToMinutes_def e)
  }
qed

section \<open>Reminders: once per stored object, not once per task\<close>

lemma window_loop_once:
  "window_loop now d ws t = (t', ns) \<Longrightarrow>
     distinct (map threshold ns)
     \<and> set (map threshold ns) \<inter> set (remindersSent t) = {}
     \<and> set (remindersSent t') = set (remindersSent t) \<union> set (map threshold ns)"
proof (induction now d ws t arbitrary: t' ns rule: window_loop.induct)
  case (1 now d t)
  then show ?case by simp
next
  case (2 now d w ws t)
  show ?case
  proof (cases "key w \<in> set (remindersSent t)")
    case True
    from "2.prems" True have "window_loop now d ws t = (t', ns)" by simp
    from "2.IH"(1)[OF True this] show ?thesis .
  next
    case False
    show ?thesis
    proof (cases "0 < d \<and> le_jsnum d (mins w)")
      case fire: True
      let ?t1 = "t\<lparr>remindersSent := remindersSent t @ [key w],
                    logs := logs t @ [\<lparr>date = now,
                                       action = ''Reminder ('' @ key w @ '') sent''\<rparr>]\<rparr>"
      obtain t2 ns2 where r: "window_loop now d ws ?t1 = (t2, ns2)"
        by (cases "window_loop now d ws ?t1")
      from "2.IH"(2)[OF False fire refl r]
      have ih: "distinct (map threshold ns2)"
        "set (map threshold ns2) \<inter> set (remindersSent ?t1) = {}"
        "set (remindersSent t2) = set (remindersSent ?t1) \<union> set (map threshold ns2)"
        by blast+
      from "2.prems" False fire r
      have eq: "t' = t2" "ns = \<lparr>about = task_id t, threshold = key w, recipients = assignedTo t\<rparr> # ns2"
        by (simp_all add: Let_def)
      from ih eq False show ?thesis by auto
    next
      case nofire: False
      from "2.prems" False nofire have "window_loop now d ws t = (t', ns)" by auto
      from "2.IH"(3)[OF False nofire this] show ?thesis .
    qed
  qed
qed

text \<open>
  What the \<^verbatim>\<open>remindersSent\<close> guard gives: one visit of one task object fires each
  threshold key at most once, only keys the object has not recorded, and records every
  key it fires. So an object never fires a key twice, in this or any later scan.
\<close>

lemma scan_task_once:
  assumes "scan_task now ws t = (t', ns)"
  shows "distinct (map threshold ns)"
    and "set (map threshold ns) \<inter> set (remindersSent t) = {}"
    and "set (remindersSent t') = set (remindersSent t) \<union> set (map threshold ns)"
proof -
  have all: "distinct (map threshold ns)
     \<and> set (map threshold ns) \<inter> set (remindersSent t) = {}
     \<and> set (remindersSent t') = set (remindersSent t) \<union> set (map threshold ns)"
  proof (cases "due t")
    case None
    with assms show ?thesis by (simp add: scan_task_def)
  next
    case (Some d)
    show ?thesis
    proof (cases "status t = ''Done''")
      case True
      with assms Some show ?thesis by (simp add: scan_task_def)
    next
      case False
      let ?diff = "double_round (double_round (of_int (d - now)) / (1000 * 60))"
      show ?thesis
      proof (cases "?diff < 0 \<and> ''overdue'' \<notin> set (remindersSent t)")
        case over: True
        let ?t1 = "t\<lparr>remindersSent := remindersSent t @ [''overdue''],
                      logs := logs t @ [\<lparr>date = now, action = ''Overdue reminder sent''\<rparr>]\<rparr>"
        obtain t2 n2 where w: "window_loop now ?diff ws ?t1 = (t2, n2)"
          by (cases "window_loop now ?diff ws ?t1")
        from assms Some False over w
        have eq: "t' = t2"
          "ns = \<lparr>about = task_id t, threshold = ''overdue'', recipients = assignedTo t\<rparr> # n2"
          by (simp_all add: scan_task_def Let_def)
        from window_loop_once[OF w] eq over show ?thesis by auto
      next
        case noover: False
        obtain t2 n2 where w: "window_loop now ?diff ws t = (t2, n2)"
          by (cases "window_loop now ?diff ws t")
        from assms Some False noover w have eq: "t' = t2" "ns = n2"
          by (auto simp: scan_task_def Let_def)
        from window_loop_once[OF w] eq show ?thesis by auto
      qed
    qed
  qed
  from all show "distinct (map threshold ns)"
    "set (map threshold ns) \<inter> set (remindersSent t) = {}"
    "set (remindersSent t') = set (remindersSent t) \<union> set (map threshold ns)"
    by blast+
qed

text \<open>
  Claim C1 fails across a reload. A task is assigned to \<^verbatim>\<open>u1\<close> and \<^verbatim>\<open>u2\<close>, due in 50
  minutes, with the window \<^verbatim>\<open>1h\<close> configured. While the process that assigned it lives,
  both collections hold one object and the scan fires the threshold once. After
  \<^verbatim>\<open>tasks.json\<close> is saved and loaded again each collection holds its own copy, the scan
  visits both, and the threshold \<^verbatim>\<open>1h\<close> of the one task fires twice, each time to both
  assignees.
\<close>

theorem scheduled_scan_reload_fires_twice:
  "snd (scheduled_scan 1700000000000 (Some [''1h'']) assigned_store)
     = [\<lparr>about = 1700000000000, threshold = ''1h'', recipients = [''u1'', ''u2'']\<rparr>]
   \<and> snd (scheduled_scan 1700000000000 (Some [''1h'']) (loadTasks (saveTasks assigned_store)))
     = [\<lparr>about = 1700000000000, threshold = ''1h'', recipients = [''u1'', ''u2'']\<rparr>,
        \<lparr>about = 1700000000000, threshold = ''1h'', recipients = [''u1'', ''u2'']\<rparr>]"
proof -
  have d: "''1'' \<noteq> [] \<or> ([]::string) \<noteq> []" "list_all is_digit ''1''"
      "list_all is_digit ([]::string)" "list_all is_digit ([]::string)"
      "([]::string) = [] \<or> [] = ''+'' \<or> [] = ''-''"
    by (simp_all add: is_digit_def)
  have lit: "toLowerCase (trim ''1h'')
          = ''1''
            @ (if [] = ([]::string) then [] else CHR ''.'' # [])
            @ (if [] = ([]::string) then [] else CHR ''e'' # [] @ []) @ ''h''"
    by code_simp
  have v: "(1 :: rat)
          = (of_int (dec_value ''1'') + of_int (dec_value []) / 10 ^ length ([]::string))
            * 10 powi (if [] = ''-'' then - dec_value [] else dec_value [])"
    by (simp add: dec_value_def digit_val_def)
  have j: "js_times (to_double 1) 60 = Num 60"
    using js_times_dyadic[of 1 60 0] by simp
  have m: "parseWindowToMinutes ''1h'' = Num 60"
    using parseWindowToMinutes_literal(2)[OF d lit v] by (simp only: j)
  have w: "windows_of (Some [''1h'']) = [\<lparr>key = ''1h'', mins = Num 60\<rparr>]"
    by (simp add: windows_of_def m)
  have dr: "double_round 3000000 = 3000000" "double_round 50 = 50"
    using double_round_int[of 3000000] double_round_int[of 50] by simp_all
  have s: "assigned_store =
     \<lparr>heap = [\<lparr>task_id = 1700000000000, title = ''Report'', description = [],
               due = Some 1700003000000, status = ''Pending'', createdBy = ''ann'',
               assignedTo = [''u1'', ''u2''], department = None,
               logs = [\<lparr>date = 1700000000000, action = ''Assigned by ann''\<rparr>],
               remindersSent = []\<rparr>],
      tasks = [(''u1'', [0]), (''u2'', [0])]\<rparr>"
    by (simp add: assigned_store_def task_assign_def resolve_assignees_def dedup_def
        parseDue_def push_task_def)
  have l: "loadTasks (saveTasks assigned_store) =
     \<lparr>heap = [\<lparr>task_id = 1700000000000, title = ''Report'', description = [],
               due = Some 1700003000000, status = ''Pending'', createdBy = ''ann'',
               assignedTo = [''u1'', ''u2''], department = None,
               logs = [\<lparr>date = 1700000000000, action = ''Assigned by ann''\<rparr>],
               remindersSent = []\<rparr>,
              \<lparr>task_id = 1700000000000, title = ''Report'', description = [],
               due = Some 1700003000000, status = ''Pending'', createdBy = ''ann'',
               assignedTo = [''u1'', ''u2''], department = None,
               logs = [\<lparr>date = 1700000000000, action = ''Assigned by ann''\<rparr>],
               remindersSent = []\<rparr>],
      tasks = [(''u1'', [0]), (''u2'', [1])]\<rparr>"
    by (simp add: s saveTasks_def loadTasks_def)
  have one: "snd (scheduled_scan 1700000000000 (Some [''1h'']) assigned_store)
     = [\<lparr>about = 1700000000000, threshold = ''1h'', recipients = [''u1'', ''u2'']\<rparr>]"
    by (simp add: scheduled_scan_def w s entries_def scan_task_def le_jsnum_def dr)
  have two: "snd (scheduled_scan 1700000000000 (Some [''1h'']) (loadTasks (saveTasks assigned_store)))
     = [\<lparr>about = 1700000000000, threshold = ''1h'', recipients = [''u1'', ''u2'']\<rparr>,
        \<lparr>about = 1700000000000, threshold = ''1h'', recipients = [''u1'', ''u2'']\<rparr>]"
    by (simp add: scheduled_scan_def w l entries_def scan_task_def le_jsnum_def dr)
  from one two show ?thesis by simp
qed

section \<open>Reminder windows\<close>

text \<open>
  The window \<^verbatim>\<open>0.12h\<close>: neither 0.12 nor its product with 60 is a double, and the code
  returns 7.199999999999999, not 7.2.
\<close>

lemma parseWindowToMinutes_rounds:
  "parseWindowToMinutes ''0.12h'' = Num (2026619832316723 / 281474976710656)"
proof -
  have d: "''0'' \<noteq> [] \<or> ''12'' \<noteq> []" "list_all is_digit ''0''" "list_all is_digit ''12''"
      "list_all is_digit ([]::string)" "([]::string) = [] \<or> [] = ''+'' \<or> [] = ''-''"
    by (simp_all add: is_digit_def)
  have lit: "toLowerCase (trim ''0.12h'')
          = ''0''
            @ (if ''12'' = [] then [] else CHR ''.'' # ''12'')
            @ (if [] = ([]::string) then [] else CHR ''e'' # [] @ []) @ ''h''"
    by code_simp
  have v: "(3 / 25 :: rat)
          = (of_int (dec_value ''0'') + of_int (dec_value ''12'') / 10 ^ length ''12'')
            * 10 powi (if [] = ''-'' then - dec_value [] else dec_value [])"
    by (simp add: dec_value_def digit_val_def)
  have r1: "double_round (3 / 25) = 1080863910568919 / 9007199254740992"
    using double_round_normal[of "- 56" "3 / 25"]
    by (simp add: round_even_def Let_def floor_rat_numeral)
  have t1: "to_double (3 / 25) = Num (1080863910568919 / 9007199254740992)"
    by (simp add: to_double_def r1)
  have r2: "double_round (16212958658533785 / 2251799813685248)
              = 2026619832316723 / 281474976710656"
    using double_round_normal[of "- 50" "16212958658533785 / 2251799813685248"]
    by (simp add: round_even_def Let_def floor_rat_numeral)
  have t2: "js_times (Num (1080863910568919 / 9007199254740992)) 60
              = Num (2026619832316723 / 281474976710656)"
    by (simp add: js_times_def to_double_def r2)
  show ?thesis
    using parseWindowToMinutes_literal(2)[OF d lit v] by (simp only: t1 t2)
qed

text \<open>
  Claim C2, as the code has it. Let the window, trimmed and lower-cased, be an unsigned
  decimal literal of value \<open>v\<close> (digits \<open>ds\<close>, a fraction \<open>fs\<close> when there is one, and an
  exponent part \<^verbatim>\<open>e\<close>, sign \<open>sg\<close>, digits \<open>es\<close> when there is one) followed by a unit \<open>u\<close>.
  \<^verbatim>\<open>parseFloat\<close> reads the literal as the double nearest to \<open>v\<close>; the result is that
  double times 60 and then times 24 for \<^verbatim>\<open>d\<close>, times 60 for \<^verbatim>\<open>h\<close>, unchanged for \<^verbatim>\<open>m\<close>,
  and times 60 when there is no unit: the last line of \<^verbatim>\<open>parseWindowToMinutes\<close> reads a
  bare number as hours. The products are products of doubles, each rounded. When
  \<open>v = N / 2 ^ k\<close> with \<open>N * 1440 < 2 ^ 53\<close> (every integer magnitude below \<open>2 ^ 53 / 1440\<close>,
  and halves, quarters and so on of such) nothing is rounded and the results are
  \<open>v * 1440\<close>, \<open>v * 60\<close>, \<open>v\<close> and \<open>v * 60\<close>.
\<close>

theorem parseWindowToMinutes_units:
  assumes "ds \<noteq> [] \<or> fs \<noteq> []"
    and "list_all is_digit ds" and "list_all is_digit fs" and "list_all is_digit es"
    and "sg = [] \<or> sg = ''+'' \<or> sg = ''-''"
    and "toLowerCase (trim w) = ds @ (if fs = [] then [] else CHR ''.'' # fs)
                                   @ (if es = [] then [] else CHR ''e'' # sg @ es) @ u"
    and "v = (of_int (dec_value ds) + of_int (dec_value fs) / 10 ^ length fs)
             * 10 powi (if sg = ''-'' then - dec_value es else dec_value es)"
  shows "(u = ''d'' \<longrightarrow> parseWindowToMinutes w = js_times (js_times (to_double v) 60) 24)
       \<and> (u = ''h'' \<longrightarrow> parseWindowToMinutes w = js_times (to_double v) 60)
       \<and> (u = ''m'' \<longrightarrow> parseWindowToMinutes w = to_double v)
       \<and> (u = [] \<longrightarrow> parseWindowToMinutes w = js_times (to_double v) 60)
       \<and> (\<forall>N k. v = of_int N / 2 ^ k \<and> k \<le> 1074 \<and> 0 \<le> N \<and> N * 1440 < 2 ^ 53 \<longrightarrow>
             (u = ''d'' \<longrightarrow> parseWindowToMinutes w = Num (v * 1440))
           \<and> (u = ''h'' \<longrightarrow> parseWindowToMinutes w = Num (v * 60))
           \<and> (u = ''m'' \<longrightarrow> parseWindowToMinutes w = Num v)
           \<and> (u = [] \<longrightarrow> parseWindowToMinutes w = Num (v * 60)))"
proof -
  note lit = parseWindowToMinutes_literal[OF assms]
  have exact: "js_times (js_times (to_double v) 60) 24 = Num (v * 1440)"
      "js_times (to_double v) 60 = Num (v * 60)" "to_double v = Num v"
    if "v = of_int N / 2 ^ k" "k \<le> 1074" "0 \<le> N" "N * 1440 < 2 ^ 53" for N k
  proof -
    have a: "\<bar>N\<bar> * 1440 < 2 ^ 53" using that(3,4) by simp
    have b: "\<bar>N\<bar> * 60 < 2 ^ 53" using that(3,4) by simp
    have c: "\<bar>N\<bar> < 2 ^ 53" using that(3,4) by simp
    show h: "js_times (to_double v) 60 = Num (v * 60)"
      using js_times_dyadic[OF b _ that(2)] by (simp add: that(1))
    have "to_double (of_int (N * 1440) / 2 ^ k) = Num (of_int (N * 1440) / 2 ^ k)"
      by (rule to_double_dyadic[OF _ that(2)]) (use a that(3) in simp)
    then show "js_times (js_times (to_double v) 60) 24 = Num (v * 1440)"
      unfolding h by (simp add: js_times_def that(1) mult.commute)
    show "to_double v = Num v"
      using to_double_dyadic[OF c that(2)] by (simp add: that(1))
  qed
  show ?thesis
  proof (intro conjI allI impI)
    show "parseWindowToMinutes w = js_times (js_times (to_double v) 60) 24" if "u = ''d''"
      using lit(1)[OF that] .
    show "parseWindowToMinutes w = js_times (to_double v) 60" if "u = ''h''"
      using lit(2)[OF that] .
    show "parseWindowToMinutes w = to_double v" if "u = ''m''"
      using lit(3)[OF that] .
    show "parseWindowToMinutes w = js_times (to_double v) 60" if "u = []"
      using lit(4)[OF that] .
    fix N :: int and k :: nat
    assume h: "v = of_int N / 2 ^ k \<and> k \<le> 1074 \<and> 0 \<le> N \<and> N * 1440 < 2 ^ 53"
    then have h': "v = of_int N / 2 ^ k" "k \<le> 1074" "0 \<le> N" "N * 1440 < 2 ^ 53"
      by blast+
    note e = exact[OF h']
    show "parseWindowToMinutes w = Num (v * 1440)" if "u = ''d''"
      using lit(1)[OF that] by (simp only: e(1))
    show "parseWindowToMinutes w = Num (v * 60)" if "u = ''h''"
      using lit(2)[OF that] by (simp only: e(2))
    show "parseWindowToMinutes w = Num v" if "u = ''m''"
      using lit(3)[OF that] by (simp only: e(3))
    show "parseWindowToMinutes w = Num (v * 60)" if "u = []"
      using lit(4)[OF that] by (simp only: e(2))
  qed
qed

text \<open>
  The theorem at the windows \<^verbatim>\<open>1d\<close>, \<^verbatim>\<open>24h\<close> and \<^verbatim>\<open>30m\<close> of the specification (1440, 1440
  and 30 minutes), at \<^verbatim>\<open>1.5d\<close>, \<^verbatim>\<open>1.5H\<close>, \<^verbatim>\<open>1.5m\<close> and \<^verbatim>\<open>1.5\<close>, where \<open>v = 3 / 2\<close> (2160,
  90, 1.5 and 90 minutes), and at \<^verbatim>\<open>.5h\<close>, \<^verbatim>\<open>2.5E-1h\<close> and \<^verbatim>\<open>1e3m\<close> (30, 15 and 1000
  minutes).
\<close>

theorem parseWindowToMinutes_units_witness:
  "parseWindowToMinutes ''1d'' = Num 1440
   \<and> parseWindowToMinutes ''24h'' = Num 1440
   \<and> parseWindowToMinutes ''30m'' = Num 30
   \<and> parseWindowToMinutes ''1.5d'' = Num 2160
   \<and> parseWindowToMinutes ''1.5H'' = Num 90
   \<and> parseWindowToMinutes ''1.5m'' = Num (3 / 2)
   \<and> parseWindowToMinutes ''1.5'' = Num 90
   \<and> parseWindowToMinutes ''.5h'' = Num 30
   \<and> parseWindowToMinutes ''2.5E-1h'' = Num 15
   \<and> parseWindowToMinutes ''1e3m'' = Num 1000"
proof -
  note ex = conjunct2[OF conjunct2[OF conjunct2[OF conjunct2]]]
  have a: "parseWindowToMinutes ''1d'' = Num 1440"
  proof -
    have d: "''1'' \<noteq> [] \<or> ([]::string) \<noteq> []" "list_all is_digit ''1''" "list_all is_digit ([]::string)"
        "list_all is_digit ([]::string)" "([]::string) = [] \<or> [] = ''+'' \<or> [] = ''-''"
      by (simp_all add: is_digit_def)
    have w: "toLowerCase (trim ''1d'')
            = ''1''
              @ (if [] = ([]::string) then [] else CHR ''.'' # [])
              @ (if [] = ([]::string) then [] else CHR ''e'' # [] @ []) @ ''d''"
      by code_simp
    have v: "(1 :: rat)
            = (of_int (dec_value ''1'') + of_int (dec_value []) / 10 ^ length ([]::string))
              * 10 powi (if [] = ''-'' then - dec_value [] else dec_value [])"
      by (simp add: dec_value_def digit_val_def)
    have x: "(1 :: rat) = of_int 1 / 2 ^ 0 \<and> (0::nat) \<le> 1074 \<and> (0::int) \<le> 1
               \<and> (1::int) * 1440 < 2 ^ 53"
      by simp
    show ?thesis
      using parseWindowToMinutes_units[OF d w v, THEN ex, rule_format, OF x] by simp
  qed
  have b: "parseWindowToMinutes ''24h'' = Num 1440"
  proof -
    have d: "''24'' \<noteq> [] \<or> ([]::string) \<noteq> []" "list_all is_digit ''24''" "list_all is_digit ([]::string)"
        "list_all is_digit ([]::string)" "([]::string) = [] \<or> [] = ''+'' \<or> [] = ''-''"
      by (simp_all add: is_digit_def)
    have w: "toLowerCase (trim ''24h'')
            = ''24''
              @ (if [] = ([]::string) then [] else CHR ''.'' # [])
              @ (if [] = ([]::string) then [] else CHR ''e'' # [] @ []) @ ''h''"
      by code_simp
    have v: "(24 :: rat)
            = (of_int (dec_value ''24'') + of_int (dec_value []) / 10 ^ length ([]::string))
              * 10 powi (if [] = ''-'' then - dec_value [] else dec_value [])"
      by (simp add: dec_value_def digit_val_def)
    have x: "(24 :: rat) = of_int 24 / 2 ^ 0 \<and> (0::nat) \<le> 1074 \<and> (0::int) \<le> 24
               \<and> (24::int) * 1440 < 2 ^ 53"
      by simp
    show ?thesis
      using parseWindowToMinutes_units[OF d w v, THEN ex, rule_format, OF x] by simp
  qed
  have c: "parseWindowToMinutes ''30m'' = Num 30"
  proof -
    have d: "''30'' \<noteq> [] \<or> ([]::string) \<noteq> []" "list_all is_digit ''30''" "list_all is_digit ([]::string)"
        "list_all is_digit ([]::string)" "([]::string) = [] \<or> [] = ''+'' \<or> [] = ''-''"
      by (simp_all add: is_digit_def)
    have w: "toLowerCase (trim ''30m'')
            = ''30''
              @ (if [] = ([]::string) then [] else CHR ''.'' # [])
              @ (if [] = ([]::string) then [] else CHR ''e'' # [] @ []) @ ''m''"
      by code_simp
    have v: "(30 :: rat)
            = (of_int (dec_value ''30'') + of_int (dec_value []) / 10 ^ length ([]::string))
              * 10 powi (if [] = ''-'' then - dec_value [] else dec_value [])"
      by (simp add: dec_value_def digit_val_def)
    have x: "(30 :: rat) = of_int 30 / 2 ^ 0 \<and> (0::nat) \<le> 1074 \<and> (0::int) \<le> 30
               \<and> (30::int) * 1440 < 2 ^ 53"
      by simp
    show ?thesis
      using parseWindowToMinutes_units[OF d w v, THEN ex, rule_format, OF x] by simp
  qed
  have d: "parseWindowToMinutes ''1.5d'' = Num 2160"
  proof -
    have d: "''1'' \<noteq> [] \<or> ''5'' \<noteq> []" "list_all is_digit ''1''" "list_all is_digit ''5''"
        "list_all is_digit ([]::string)" "([]::string) = [] \<or> [] = ''+'' \<or> [] = ''-''"
      by (simp_all add: is_digit_def)
    have w: "toLowerCase (trim ''1.5d'')
            = ''1''
              @ (if ''5'' = [] then [] else CHR ''.'' # ''5'')
              @ (if [] = ([]::string) then [] else CHR ''e'' # [] @ []) @ ''d''"
      by code_simp
    have v: "(3 / 2 :: rat)
            = (of_int (dec_value ''1'') + of_int (dec_value ''5'') / 10 ^ length ''5'')
              * 10 powi (if [] = ''-'' then - dec_value [] else dec_value [])"
      by (simp add: dec_value_def digit_val_def)
    have x: "(3 / 2 :: rat) = of_int 3 / 2 ^ 1 \<and> (1::nat) \<le> 1074 \<and> (0::int) \<le> 3
               \<and> (3::int) * 1440 < 2 ^ 53"
      by simp
    show ?thesis
      using parseWindowToMinutes_units[OF d w v, THEN ex, rule_format, OF x] by simp
  qed
  have e: "parseWindowToMinutes ''1.5H'' = Num 90"
  proof -
    have d: "''1'' \<noteq> [] \<or> ''5'' \<noteq> []" "list_all is_digit ''1''" "list_all is_digit ''5''"
        "list_all is_digit ([]::string)" "([]::string) = [] \<or> [] = ''+'' \<or> [] = ''-''"
      by (simp_all add: is_digit_def)
    have w: "toLowerCase (trim ''1.5H'')
            = ''1''
              @ (if ''5'' = [] then [] else CHR ''.'' # ''5'')
              @ (if [] = ([]::string) then [] else CHR ''e'' # [] @ []) @ ''h''"
      by code_simp
    have v: "(3 / 2 :: rat)
            = (of_int (dec_value ''1'') + of_int (dec_value ''5'') / 10 ^ length ''5'')
              * 10 powi (if [] = ''-'' then - dec_value [] else dec_value [])"
      by (simp add: dec_value_def digit_val_def)
    have x: "(3 / 2 :: rat) = of_int 3 / 2 ^ 1 \<and> (1::nat) \<le> 1074 \<and> (0::int) \<le> 3
               \<and> (3::int) * 1440 < 2 ^ 53"
      by simp
    show ?thesis
      using parseWindowToMinutes_units[OF d w v, THEN ex, rule_format, OF x] by simp
  qed
  have f: "parseWindowToMinutes ''1.5m'' = Num (3 / 2)"
  proof -
    have d: "''1'' \<noteq> [] \<or> ''5'' \<noteq> []" "list_all is_digit ''1''" "list_all is_digit ''5''"
        "list_all is_digit ([]::string)" "([]::string) = [] \<or> [] = ''+'' \<or> [] = ''-''"
      by (simp_all add: is_digit_def)
    have w: "toLowerCase (trim ''1.5m'')
            = ''1''
              @ (if ''5'' = [] then [] else CHR ''.'' # ''5'')
              @ (if [] = ([]::string) then [] else CHR ''e'' # [] @ []) @ ''m''"
      by code_simp
    have v: "(3 / 2 :: rat)
            = (of_int (dec_value ''1'') + of_int (dec_value ''5'') / 10 ^ length ''5'')
              * 10 powi (if [] = ''-'' then - dec_value [] else dec_value [])"
      by (simp add: dec_value_def digit_val_def)
    have x: "(3 / 2 :: rat) = of_int 3 / 2 ^ 1 \<and> (1::nat) \<le> 1074 \<and> (0::int) \<le> 3
               \<and> (3::int) * 1440 < 2 ^ 53"
      by simp
    show ?thesis
      using parseWindowToMinutes_units[OF d w v, THEN ex, rule_format, OF x] by simp
  qed
  have g: "parseWindowToMinutes ''1.5'' = Num 90"
  proof -
    have d: "''1'' \<noteq> [] \<or> ''5'' \<noteq> []" "list_all is_digit ''1''" "list_all is_digit ''5''"
        "list_all is_digit ([]::string)" "([]::string) = [] \<or> [] = ''+'' \<or> [] = ''-''"
      by (simp_all add: is_digit_def)
    have w: "toLowerCase (trim ''1.5'')
            = ''1''
              @ (if ''5'' = [] then [] else CHR ''.'' # ''5'')
              @ (if [] = ([]::string) then [] else CHR ''e'' # [] @ []) @ []"
      by code_simp
    have v: "(3 / 2 :: rat)
            = (of_int (dec_value ''1'') + of_int (dec_value ''5'') / 10 ^ length ''5'')
              * 10 powi (if [] = ''-'' then - dec_value [] else dec_value [])"
      by (simp add: dec_value_def digit_val_def)
    have x: "(3 / 2 :: rat) = of_int 3 / 2 ^ 1 \<and> (1::nat) \<le> 1074 \<and> (0::int) \<le> 3
               \<and> (3::int) * 1440 < 2 ^ 53"
      by simp
    show ?thesis
      using parseWindowToMinutes_units[OF d w v, THEN ex, rule_format, OF x] by simp
  qed
  have h: "parseWindowToMinutes ''.5h'' = Num 30"
  proof -
    have d: "([]::string) \<noteq> [] \<or> ''5'' \<noteq> []" "list_all is_digit ([]::string)" "list_all is_digit ''5''"
        "list_all is_digit ([]::string)" "([]::string) = [] \<or> [] = ''+'' \<or> [] = ''-''"
      by (simp_all add: is_digit_def)
    have w: "toLowerCase (trim ''.5h'')
            = []
              @ (if ''5'' = [] then [] else CHR ''.'' # ''5'')
              @ (if [] = ([]::string) then [] else CHR ''e'' # [] @ []) @ ''h''"
      by code_simp
    have v: "(1 / 2 :: rat)
            = (of_int (dec_value []) + of_int (dec_value ''5'') / 10 ^ length ''5'')
              * 10 powi (if [] = ''-'' then - dec_value [] else dec_value [])"
      by (simp add: dec_value_def digit_val_def)
    have x: "(1 / 2 :: rat) = of_int 1 / 2 ^ 1 \<and> (1::nat) \<le> 1074 \<and> (0::int) \<le> 1
               \<and> (1::int) * 1440 < 2 ^ 53"
      by simp
    show ?thesis
      using parseWindowToMinutes_units[OF d w v, THEN ex, rule_format, OF x] by simp
  qed
  have i: "parseWindowToMinutes ''2.5E-1h'' = Num 15"
  proof -
    have d: "''2'' \<noteq> [] \<or> ''5'' \<noteq> []" "list_all is_digit ''2''" "list_all is_digit ''5''"
        "list_all is_digit ''1''" "''-'' = [] \<or> ''-'' = ''+'' \<or> ''-'' = ''-''"
      by (simp_all add: is_digit_def)
    have w: "toLowerCase (trim ''2.5E-1h'')
            = ''2''
              @ (if ''5'' = [] then [] else CHR ''.'' # ''5'')
              @ (if ''1'' = [] then [] else CHR ''e'' # ''-'' @ ''1'') @ ''h''"
      by code_simp
    have v: "(1 / 4 :: rat)
            = (of_int (dec_value ''2'') + of_int (dec_value ''5'') / 10 ^ length ''5'')
              * 10 powi (if ''-'' = ''-'' then - dec_value ''1'' else dec_value ''1'')"
      by (simp add: dec_value_def digit_val_def)
    have x: "(1 / 4 :: rat) = of_int 1 / 2 ^ 2 \<and> (2::nat) \<le> 1074 \<and> (0::int) \<le> 1
               \<and> (1::int) * 1440 < 2 ^ 53"
      by simp
    show ?thesis
      using parseWindowToMinutes_units[OF d w v, THEN ex, rule_format, OF x] by simp
  qed
  have j: "parseWindowToMinutes ''1e3m'' = Num 1000"
  proof -
    have d: "''1'' \<noteq> [] \<or> ([]::string) \<noteq> []" "list_all is_digit ''1''" "list_all is_digit ([]::string)"
        "list_all is_digit ''3''" "([]::string) = [] \<or> [] = ''+'' \<or> [] = ''-''"
      by (simp_all add: is_digit_def)
    have w: "toLowerCase (trim ''1e3m'')
            = ''1''
              @ (if [] = ([]::string) then [] else CHR ''.'' # [])
              @ (if ''3'' = [] then [] else CHR ''e'' # [] @ ''3'') @ ''m''"
      by code_simp
    have v: "(1000 :: rat)
            = (of_int (dec_value ''1'') + of_int (dec_value []) / 10 ^ length ([]::string))
              * 10 powi (if [] = ''-'' then - dec_value ''3'' else dec_value ''3'')"
      by (simp add: dec_value_def digit_val_def)
    have x: "(1000 :: rat) = of_int 1000 / 2 ^ 0 \<and> (0::nat) \<le> 1074 \<and> (0::int) \<le> 1000
               \<and> (1000::int) * 1440 < 2 ^ 53"
      by simp
    show ?thesis
      using parseWindowToMinutes_units[OF d w v, THEN ex, rule_format, OF x] by simp
  qed
  from a b c d e f g h i j show ?thesis by (simp only:)
qed

text \<open>
  The claim as the specification words it (a bare number is that many minutes) fails:
  the window \<^verbatim>\<open>30\<close> is 1800 minutes, not 30.
\<close>

theorem parseWindowToMinutes_bare_counterexample:
  "parseWindowToMinutes ''30'' = Num 1800 \<and> parseWindowToMinutes ''30'' \<noteq> Num 30"
proof -
  have d: "''30'' \<noteq> [] \<or> ([]::string) \<noteq> []" "list_all is_digit ''30''"
      "list_all is_digit ([]::string)" "list_all is_digit ([]::string)"
      "([]::string) = [] \<or> [] = ''+'' \<or> [] = ''-''"
    by (simp_all add: is_digit_def)
  have w: "toLowerCase (trim ''30'')
          = ''30''
            @ (if [] = ([]::string) then [] else CHR ''.'' # [])
            @ (if [] = ([]::string) then [] else CHR ''e'' # [] @ []) @ []"
    by code_simp
  have v: "(30 :: rat)
          = (of_int (dec_value ''30'') + of_int (dec_value []) / 10 ^ length ([]::string))
            * 10 powi (if [] = ''-'' then - dec_value [] else dec_value [])"
    by (simp add: dec_value_def digit_val_def)
  have j: "js_times (to_double 30) 60 = Num 1800"
    using js_times_dyadic[of 30 60 0] by simp
  have "parseWindowToMinutes ''30'' = Num 1800"
    using parseWindowToMinutes_literal(4)[OF d w v] by (simp only: j)
  then show ?thesis by simp
qed

section \<open>Assignment\<close>

lemma set_dedup: "set (dedup xs) = set xs"
  by (simp add: dedup_def)

lemma distinct_dedup: "distinct (dedup xs)"
  by (simp add: dedup_def)

lemma push_task_keeps:
  assumes "map_of ts u = Some l" "a \<in> set l"
  shows "\<exists>l'. map_of (push_task v b ts) u = Some l' \<and> a \<in> set l'"
  using assms by (cases "v = u") (auto simp: map_of_push_task)

lemma fold_push_task_keeps:
  assumes "map_of ts u = Some l" "a \<in> set l"
  shows "\<exists>l'. map_of (fold (\<lambda>v ts. push_task v b ts) us ts) u = Some l' \<and> a \<in> set l'"
  using assms
proof (induction us arbitrary: ts l)
  case Nil
  then show ?case by simp
next
  case (Cons v us)
  from push_task_keeps[OF Cons.prems, of v b]
  obtain l' where "map_of (push_task v b ts) u = Some l'" "a \<in> set l'" by blast
  from Cons.IH[OF this] show ?case by simp
qed

lemma fold_push_task_pushes:
  "u \<in> set us \<Longrightarrow>
     \<exists>l. map_of (fold (\<lambda>v ts. push_task v a ts) us ts) u = Some l \<and> a \<in> set l"
proof (induction us arbitrary: ts)
  case Nil
  then show ?case by simp
next
  case (Cons v us)
  show ?case
  proof (cases "v = u")
    case True
    have "map_of (push_task u a ts) u
            = Some ((case map_of ts u of None \<Rightarrow> [] | Some l \<Rightarrow> l) @ [a])"
      by (simp add: map_of_push_task)
    from fold_push_task_keeps[OF this, of a a us] True show ?thesis by simp
  next
    case False
    with Cons show ?thesis by simp
  qed
qed

text \<open>
  The handler of the later drafts does what claim C3 says whenever it gets as far as an
  assignee list: for a privileged caller the list has no duplicates and is, as a set,
  the listed users' ids together with the members of the department when it is named
  and exists; when it is empty the handler fails with \<open>EmptyAssignment\<close> and the store
  is as before; otherwise one task object with that \<^verbatim>\<open>assignedTo\<close> is stored in the
  collection of every assignee.
\<close>

lemma task_assign_dedup_union:
  assumes "resolve_assignees departments dept users = Inr (assigned, tag)"
  shows "distinct assigned"
    and "set assigned = mention_id ` set users
           \<union> (case dept of
                None \<Rightarrow> {}
              | Some d \<Rightarrow> if d = [] then {}
                          else (case map_of departments d of None \<Rightarrow> {} | Some ms \<Rightarrow> set ms))"
    and "assigned = [] \<Longrightarrow>
           task_assign parseDate departments True user_name ttl descr dueStr dept users now s
             = (Some EmptyAssignment, s)"
    and "assigned \<noteq> [] \<Longrightarrow>
           fst (task_assign parseDate departments True user_name ttl descr dueStr dept users now s)
             = None
           \<and> assignedTo (heap (snd (task_assign parseDate departments True user_name ttl descr
                                       dueStr dept users now s)) ! length (heap s)) = assigned
           \<and> (\<forall>u \<in> set assigned.
                 (u, length (heap s))
                   \<in> set (entries (snd (task_assign parseDate departments True user_name ttl
                                           descr dueStr dept users now s))))"
proof -
  show "distinct assigned"
    using assms
    by (auto simp: resolve_assignees_def distinct_dedup Let_def
        split: option.splits if_splits property.splits)
  show "set assigned = mention_id ` set users
           \<union> (case dept of
                None \<Rightarrow> {}
              | Some d \<Rightarrow> if d = [] then {}
                          else (case map_of departments d of None \<Rightarrow> {} | Some ms \<Rightarrow> set ms))"
    using assms
    by (auto simp: resolve_assignees_def js_property_def set_dedup Let_def
        split: option.splits if_splits property.splits)
  show "assigned = [] \<Longrightarrow>
           task_assign parseDate departments True user_name ttl descr dueStr dept users now s
             = (Some EmptyAssignment, s)"
    using assms by (simp add: task_assign_def)
  assume ne: "assigned \<noteq> []"
  let ?r = "task_assign parseDate departments True user_name ttl descr dueStr dept users now s"
  have ok: "fst ?r = None" using assms ne by (simp add: task_assign_def)
  have at: "assignedTo (heap (snd ?r) ! length (heap s)) = assigned"
    using assms ne by (simp add: task_assign_def)
  have ts: "tasks (snd ?r) = fold (\<lambda>u ts. push_task u (length (heap s)) ts) assigned (tasks s)"
    using assms ne by (simp add: task_assign_def)
  have "\<forall>u \<in> set assigned. (u, length (heap s)) \<in> set (entries (snd ?r))"
  proof
    fix u assume "u \<in> set assigned"
    from fold_push_task_pushes[OF this, of "length (heap s)" "tasks s"]
    obtain l where "map_of (tasks (snd ?r)) u = Some l" "length (heap s) \<in> set l"
      unfolding ts by blast
    then show "(u, length (heap s)) \<in> set (entries (snd ?r))" by (rule in_entries_map_of)
  qed
  with ok at show "fst ?r = None \<and> assignedTo (heap (snd ?r) ! length (heap s)) = assigned
      \<and> (\<forall>u \<in> set assigned. (u, length (heap s)) \<in> set (entries (snd ?r)))"
    by blast
qed

text \<open>
  A department name that is no key of \<^verbatim>\<open>departments.json\<close> but a property every object
  inherits, such as \<^verbatim>\<open>toString\<close>: the spread throws, the handler replies with its error
  message and nothing is stored.
\<close>

lemma task_assign_inherited_property:
  assumes "map_of departments d = None" "d \<in> set object_prototype_names"
  shows "task_assign parseDate departments True user_name ttl descr dueStr (Some d) users now s
           = (Some InternalError, s)"
proof -
  have "d \<noteq> []" using assms(2) by (auto simp: object_prototype_names_def)
  then show ?thesis
    using assms by (simp add: task_assign_def resolve_assignees_def js_property_def)
qed

text \<open>
  Claim C3 on the older draft \<^verbatim>\<open>src/index.js\<close>, where it fails. The caller mentions the
  user \<^verbatim>\<open>u2\<close> and names the department \<^verbatim>\<open>dev\<close>, whose members are \<^verbatim>\<open>u2\<close> and \<^verbatim>\<open>u3\<close>. The
  list that becomes \<^verbatim>\<open>assignedTo\<close> holds the mentioned object and the id string of the
  same user: as identifiers, \<^verbatim>\<open>u2\<close> is there twice.
\<close>

theorem assignedIds_index_js_duplicate:
  "assignedIds_index_js [(''dev'', [''u2'', ''u3''])] (Some ''dev'')
       [\<lparr>mention_id = ''u2'', username = ''bob''\<rparr>]
     = Inr [Obj \<lparr>mention_id = ''u2'', username = ''bob''\<rparr>, Str ''u2'', Str ''u3'']
   \<and> map ident_of [Obj \<lparr>mention_id = ''u2'', username = ''bob''\<rparr>, Str ''u2'', Str ''u3'']
       = [''u2'', ''u2'', ''u3'']
   \<and> \<not> distinct (map ident_of
          [Obj \<lparr>mention_id = ''u2'', username = ''bob''\<rparr>, Str ''u2'', Str ''u3''])
   \<and> resolve_assignees [(''dev'', [''u2'', ''u3''])] (Some ''dev'')
         [\<lparr>mention_id = ''u2'', username = ''bob''\<rparr>] = Inr ([''u2'', ''u3''], Some ''dev'')"
  by (simp add: assignedIds_index_js_def resolve_assignees_def js_property_def dedup_def)

section \<open>Status update by position\<close>

lemma resolve_index_out_of_range:
  assumes "found_by_id s ident = None"
    and "ix < 1 \<or> int (length (task_list s user_id priv)) < ix"
  shows "resolve s user_id priv ident (Some ix) = Inl NotFound"
proof (cases "priv \<and> ix \<noteq> 0")
  case True
  with assms show ?thesis by (auto simp: resolve_def task_list_def Let_def)
next
  case False
  with assms show ?thesis
    by (auto simp: resolve_def task_list_def Let_def split: option.splits)
qed

lemma resolve_index_in_range:
  assumes "wf s" "1 \<le> ix" "ix \<le> int (length (task_list s user_id priv))"
    and "found_by_id s ident = None"
  shows "\<exists>u idx a l. resolve s user_id priv ident (Some ix) = Inr (u, idx, a)
           \<and> map_of (tasks s) u = Some l \<and> idx < length l \<and> l ! idx = a
           \<and> a < length (heap s)
           \<and> (u, heap s ! a) = task_list s user_id priv ! nat (ix - 1)"
proof (cases priv)
  case True
  let ?all = "getAllTasksUnique s"
  let ?x = "?all ! nat (ix - 1)"
  have k: "nat (ix - 1) < length ?all" using assms(2,3) True by (simp add: task_list_def)
  then have "?x \<in> set ?all" by simp
  then have "find (\<lambda>y. task_id (snd y) = task_id (snd ?x)) (scanned s) = Some ?x"
    by (simp add: getAllTasksUnique_def scanned_def unique_loop_first)
  then have "map_option (\<lambda>(u, idx, a). (u, heap s ! a)) (findTaskById s (task_id (snd ?x))) = Some ?x"
    by (simp add: findTaskById_first)
  then obtain u idx a where f: "findTaskById s (task_id (snd ?x)) = Some (u, idx, a)"
    and x: "(u, heap s ! a) = ?x"
    by (auto simp: map_option_case split: option.splits)
  from findTaskById_Some(1,2)[OF assms(1) f]
  obtain l where l: "map_of (tasks s) u = Some l" "idx < length l" "l ! idx = a"
    and a: "a < length (heap s)" by blast
  have "resolve s user_id priv ident (Some ix) = Inr (u, idx, a)"
    using True assms(2,3,4) f by (simp add: resolve_def task_list_def Let_def)
  with l a x True show ?thesis by (auto simp: task_list_def)
next
  case False
  let ?ul = "case map_of (tasks s) user_id of None \<Rightarrow> [] | Some l \<Rightarrow> l"
  have len: "nat (ix - 1) < length ?ul" using assms(2,3) False by (simp add: task_list_def)
  then obtain l where l: "map_of (tasks s) user_id = Some l"
    by (cases "map_of (tasks s) user_id") auto
  with len have k: "nat (ix - 1) < length l" by simp
  then have "l ! nat (ix - 1) \<in> set l" by (rule nth_mem)
  with l have "(user_id, l ! nat (ix - 1)) \<in> set (entries s)"
    by (rule in_entries_map_of)
  then have a: "l ! nat (ix - 1) < length (heap s)" by (rule wf_addr[OF assms(1)])
  have r: "resolve s user_id priv ident (Some ix) = Inr (user_id, nat (ix - 1), l ! nat (ix - 1))"
    using False assms(2,4) k l by (simp add: resolve_def Let_def)
  have "task_list s user_id priv ! nat (ix - 1) = (user_id, heap s ! (l ! nat (ix - 1)))"
    using False k l by (simp add: task_list_def)
  with r l k a show ?thesis by auto
qed

text \<open>
  Claim C4. \<^verbatim>\<open>/task-update\<close> by position \<open>ix\<close> in the list of length \<open>N\<close> that
  \<^verbatim>\<open>/task-list\<close> shows the caller (no id given, or an id that no stored task has):
  \<^item> \<open>ix\<close> outside \<open>[1, N]\<close> fails with \<open>NotFound\<close> and leaves the store as it is;
  \<^item> otherwise the target is the stored entry behind position \<open>ix\<close>; a caller who is not
    privileged and not among the target's assignees fails with \<open>Forbidden\<close>; then a status
    outside the five values fails with \<open>InvalidStatus\<close>; both leave the store as it is;
  \<^item> otherwise the handler succeeds: the collections are unchanged, and the target
    object has the new status and exactly one more log entry, which names the status and
    the actor; the collection the target was resolved from still holds it at that place.
\<close>

theorem task_update_by_index:
  assumes "wf s" and "found_by_id s ident = None"
  shows "(ix < 1 \<or> int (length (task_list s user_id priv)) < ix \<longrightarrow>
           task_update user_id user_name priv ident (Some ix) st now s = (Some NotFound, s))
   \<and> (1 \<le> ix \<and> ix \<le> int (length (task_list s user_id priv)) \<longrightarrow>
        (\<exists>u idx a l.
           resolve s user_id priv ident (Some ix) = Inr (u, idx, a)
           \<and> map_of (tasks s) u = Some l \<and> idx < length l \<and> l ! idx = a
           \<and> a < length (heap s)
           \<and> (u, heap s ! a) = task_list s user_id priv ! nat (ix - 1)
           \<and> task_update user_id user_name priv ident (Some ix) st now s
               = (if \<not> priv \<and> user_id \<notin> set (assignedTo (heap s ! a)) then (Some Forbidden, s)
                  else if st \<notin> set valid then (Some InvalidStatus, s)
                  else (None,
                        s\<lparr>heap := (heap s)[a := (heap s ! a)
                             \<lparr>status := st,
                              logs := logs (heap s ! a)
                                @ [\<lparr>date = now,
                                    action = ''Status set to '' @ st @ '' by '' @ user_name\<rparr>]\<rparr>]\<rparr>))))"
proof (intro conjI impI)
  assume "ix < 1 \<or> int (length (task_list s user_id priv)) < ix"
  then show "task_update user_id user_name priv ident (Some ix) st now s = (Some NotFound, s)"
    using assms(2) by (simp add: task_update_def resolve_index_out_of_range)
next
  assume "1 \<le> ix \<and> ix \<le> int (length (task_list s user_id priv))"
  then obtain u idx a l where r: "resolve s user_id priv ident (Some ix) = Inr (u, idx, a)"
    and l: "map_of (tasks s) u = Some l" "idx < length l" "l ! idx = a"
    and a: "a < length (heap s)"
    and x: "(u, heap s ! a) = task_list s user_id priv ! nat (ix - 1)"
    using resolve_index_in_range[OF assms(1) _ _ assms(2), of ix user_id priv] by blast
  have wb: "write_back u idx a (tasks s) = tasks s"
    using assms l by (intro write_back_same) (simp_all add: wf_def)
  have "task_update user_id user_name priv ident (Some ix) st now s
      = (if \<not> priv \<and> user_id \<notin> set (assignedTo (heap s ! a)) then (Some Forbidden, s)
         else if st \<notin> set valid then (Some InvalidStatus, s)
         else (None,
               s\<lparr>heap := (heap s)[a := (heap s ! a)
                    \<lparr>status := st,
                     logs := logs (heap s ! a)
                       @ [\<lparr>date = now,
                           action = ''Status set to '' @ st @ '' by '' @ user_name\<rparr>]\<rparr>]\<rparr>))"
    by (simp add: task_update_def r wb Let_def)
  with r l a x
  show "\<exists>u idx a l.
           resolve s user_id priv ident (Some ix) = Inr (u, idx, a)
           \<and> map_of (tasks s) u = Some l \<and> idx < length l \<and> l ! idx = a
           \<and> a < length (heap s)
           \<and> (u, heap s ! a) = task_list s user_id priv ! nat (ix - 1)
           \<and> task_update user_id user_name priv ident (Some ix) st now s
               = (if \<not> priv \<and> user_id \<notin> set (assignedTo (heap s ! a)) then (Some Forbidden, s)
                  else if st \<notin> set valid then (Some InvalidStatus, s)
                  else (None,
                        s\<lparr>heap := (heap s)[a := (heap s ! a)
                             \<lparr>status := st,
                              logs := logs (heap s ! a)
                                @ [\<lparr>date = now,
                                    action = ''Status set to '' @ st @ '' by '' @ user_name\<rparr>]\<rparr>]\<rparr>))"
    by blast
qed

text \<open>
  The theorem at a store with two tasks: positions 0 and 2 of a one-task list, a caller
  who is not an assignee of the task filed under them, a status that is not one of the
  five, and a privileged update of the second task of the deduplicated list.
\<close>

theorem task_update_by_index_witness:
  "wf update_store \<and> found_by_id update_store None = None
   \<and> task_update ''u2'' ''bob'' False None (Some 0) ''Done'' 50 update_store
       = (Some NotFound, update_store)
   \<and> task_update ''u2'' ''bob'' False None (Some 2) ''Done'' 50 update_store
       = (Some NotFound, update_store)
   \<and> task_update ''u3'' ''cy'' False None (Some 1) ''Done'' 50 update_store
       = (Some Forbidden, update_store)
   \<and> task_update ''u2'' ''bob'' False None (Some 1) ''Finished'' 50 update_store
       = (Some InvalidStatus, update_store)
   \<and> task_update ''u0'' ''boss'' True None (Some 2) ''Done'' 50 update_store
       = (None,
          update_store\<lparr>heap := (heap update_store)[1 := (heap update_store ! 1)
             \<lparr>status := ''Done'',
              logs := [\<lparr>date = 1, action = ''Created''\<rparr>,
                       \<lparr>date = 50, action = ''Status set to Done by boss''\<rparr>]\<rparr>]\<rparr>)"
proof -
  have w: "wf update_store"
    by (simp add: wf_def update_store_def entries_def)
  have i: "found_by_id update_store None = None"
    by (simp add: found_by_id_def)
  have n2: "length (task_list update_store ''u2'' False) = 1"
    and n3: "length (task_list update_store ''u3'' False) = 1"
    and n0: "length (task_list update_store ''u0'' True) = 2"
    by (simp_all add: task_list_def update_store_def getAllTasksUnique_def entries_def)
  have r2: "resolve update_store ''u2'' False None (Some 1) = Inr (''u2'', 0, 0)"
    and r3: "resolve update_store ''u3'' False None (Some 1) = Inr (''u3'', 0, 1)"
    by (simp_all add: resolve_def found_by_id_def update_store_def)
  have r0: "resolve update_store ''u0'' True None (Some 2) = Inr (''u1'', 1, 1)"
    by (simp add: resolve_def found_by_id_def update_store_def getAllTasksUnique_def
        entries_def findTaskById_def)
  have a: "task_update ''u2'' ''bob'' False None (Some 0) ''Done'' 50 update_store
             = (Some NotFound, update_store)"
    using task_update_by_index[OF w i, of 0 "''u2''" False "''bob''" "''Done''" 50] by simp
  have b: "task_update ''u2'' ''bob'' False None (Some 2) ''Done'' 50 update_store
             = (Some NotFound, update_store)"
    using task_update_by_index[OF w i, of 2 "''u2''" False "''bob''" "''Done''" 50] n2 by simp
  have c: "task_update ''u3'' ''cy'' False None (Some 1) ''Done'' 50 update_store
             = (Some Forbidden, update_store)"
    using task_update_by_index[OF w i, of 1 "''u3''" False "''cy''" "''Done''" 50] n3 r3
    by (auto simp: update_store_def)
  have d: "task_update ''u2'' ''bob'' False None (Some 1) ''Finished'' 50 update_store
             = (Some InvalidStatus, update_store)"
    using task_update_by_index[OF w i, of 1 "''u2''" False "''bob''" "''Finished''" 50] n2 r2
    by (auto simp: update_store_def valid_def)
  have e: "task_update ''u0'' ''boss'' True None (Some 2) ''Done'' 50 update_store
       = (None,
          update_store\<lparr>heap := (heap update_store)[1 := (heap update_store ! 1)
             \<lparr>status := ''Done'',
              logs := [\<lparr>date = 1, action = ''Created''\<rparr>,
                       \<lparr>date = 50, action = ''Status set to Done by boss''\<rparr>]\<rparr>]\<rparr>)"
    using task_update_by_index[OF w i, of 2 "''u0''" True "''boss''" "''Done''" 50] n0 r0
    by (auto simp: update_store_def valid_def)
  from w i a b c d e show ?thesis by simp
qed

section \<open>Fuzzy search\<close>

lemma includes_str_sublist: "includes_str s q \<longleftrightarrow> sublist q s"
  by (induction s) (simp_all add: sublist_Cons_right)

lemma includes_str_char: "includes_str s [ch] \<longleftrightarrow> ch \<in> set s"
  by (induction s) auto

lemma score_task_formula:
  "score_task query t =
     (if toLowerCase (title t) = query then 100 else 0)
     + (if sublist query (toLowerCase (title t)) then 50 else 0)
     + (if sublist query (toLowerCase (description t)) then 20 else 0)
     + length (filter (\<lambda>ch. ch \<in> set (toLowerCase (title t))) query)"
  by (simp add: score_task_def Let_def includes_str_char) (simp add: includes_str_sublist)

lemma common_le: "length (filter (\<lambda>ch. ch \<in> set ttl) query) \<le> length query"
  by simp

lemma common_sublist:
  assumes "sublist query ttl"
  shows "length (filter (\<lambda>ch. ch \<in> set ttl) query) = length query"
proof -
  have "set query \<subseteq> set ttl" using assms by (auto simp: sublist_def)
  then have "filter (\<lambda>ch. ch \<in> set ttl) query = query" by (auto intro: filter_True)
  then show ?thesis by simp
qed

lemma insort_key_map_pair:
  "insort_key (\<lambda>x. f (snd x)) (t, g t) (map (\<lambda>t. (t, g t)) xs)
     = map (\<lambda>t. (t, g t)) (insort_key (\<lambda>t. f (g t)) t xs)"
  by (induction xs) simp_all

lemma sort_key_map_pair:
  "sort_key (\<lambda>x. f (snd x)) (map (\<lambda>t. (t, g t)) xs)
     = map (\<lambda>t. (t, g t)) (sort_key (\<lambda>t. f (g t)) xs)"
  by (induction xs) (simp_all add: insort_key_map_pair)

lemma slice0_map: "slice0 limit (map f xs) = map f (slice0 limit xs)"
  by (simp add: slice0_def take_map)

text \<open>The search without the intermediate pairs.\<close>

lemma fuzzySearchTasks_ranked:
  "fuzzySearchTasks q limit s
     = slice0 limit (sort_key (\<lambda>x. - int (rank_score q x))
                       (filter (\<lambda>x. 0 < rank_score q x) (getAllTasksUnique s)))"
proof -
  let ?g = "\<lambda>t. score_task (toLowerCase q) (snd t)"
  let ?all = "getAllTasksUnique s"
  have "filter (\<lambda>x. 0 < snd x) (map (\<lambda>t. (t, ?g t)) ?all)
          = map (\<lambda>t. (t, ?g t)) (filter (\<lambda>t. 0 < ?g t) ?all)"
    by (simp add: filter_map comp_def)
  then have "sort_key (\<lambda>x. - int (snd x)) (filter (\<lambda>x. 0 < snd x) (map (\<lambda>t. (t, ?g t)) ?all))
          = map (\<lambda>t. (t, ?g t)) (sort_key (\<lambda>t. - int (?g t)) (filter (\<lambda>t. 0 < ?g t) ?all))"
    by (simp only: sort_key_map_pair[where f = "\<lambda>n. - int n"])
  then show ?thesis
    by (simp add: fuzzySearchTasks_def Let_def slice0_map comp_def)
qed

lemma fuzzySearchTasks_full:
  "fuzzySearchTasks q (int (length (getAllTasksUnique s))) s
     = sort_key (\<lambda>x. - int (rank_score q x))
         (filter (\<lambda>x. 0 < rank_score q x) (getAllTasksUnique s))"
  by (simp add: fuzzySearchTasks_ranked slice0_def)

text \<open>
  Claim C5, as the code has it. For a query \<open>q\<close> and a limit that is not negative:
  \<^item> the score of a task is 100 if its lower-cased title is the lower-cased query, plus
    50 if the title contains the query, plus 20 if the description contains it, plus one
    point for every character of the query, repeated characters counted each time,
    that occurs in the title;
  \<^item> the result is the first \<open>limit\<close> entries of the full ranking; the full ranking holds
    exactly the entries of the deduplicated list with a positive score, in descending
    order of score, entries of equal score in scan order;
  \<^item> a title equal to the query scores more than a title that only contains it, which
    scores more than a task whose title does not contain it, whatever else they hold.
\<close>

theorem fuzzySearchTasks_ranking:
  assumes "0 \<le> limit"
  shows "fuzzySearchTasks q limit s
           = take (nat limit) (fuzzySearchTasks q (int (length (getAllTasksUnique s))) s)
   \<and> (\<forall>k. filter (\<lambda>x. rank_score q x = k)
              (fuzzySearchTasks q (int (length (getAllTasksUnique s))) s)
            = filter (\<lambda>x. rank_score q x = k)
                (filter (\<lambda>x. 0 < rank_score q x) (getAllTasksUnique s)))
   \<and> sorted_wrt (\<lambda>x y. rank_score q y \<le> rank_score q x)
        (fuzzySearchTasks q (int (length (getAllTasksUnique s))) s)
   \<and> (\<forall>query t. score_task query t
         = (if toLowerCase (title t) = query then 100 else 0)
           + (if sublist query (toLowerCase (title t)) then 50 else 0)
           + (if sublist query (toLowerCase (description t)) then 20 else 0)
           + length (filter (\<lambda>ch. ch \<in> set (toLowerCase (title t))) query))
   \<and> (\<forall>x y z. toLowerCase (title (snd x)) = toLowerCase q
          \<and> toLowerCase (title (snd y)) \<noteq> toLowerCase q
          \<and> sublist (toLowerCase q) (toLowerCase (title (snd y)))
          \<and> \<not> sublist (toLowerCase q) (toLowerCase (title (snd z)))
        \<longrightarrow> rank_score q z < rank_score q y \<and> rank_score q y < rank_score q x)"
proof (intro conjI allI impI)
  let ?key = "\<lambda>x. - int (rank_score q x)"
  let ?hits = "filter (\<lambda>x. 0 < rank_score q x) (getAllTasksUnique s)"
  show "fuzzySearchTasks q limit s
          = take (nat limit) (fuzzySearchTasks q (int (length (getAllTasksUnique s))) s)"
    using assms by (simp add: fuzzySearchTasks_full) (simp add: fuzzySearchTasks_ranked slice0_def)
  show "filter (\<lambda>x. rank_score q x = k)
              (fuzzySearchTasks q (int (length (getAllTasksUnique s))) s)
            = filter (\<lambda>x. rank_score q x = k) ?hits" for k
    using sort_key_stable[of ?key "- int k" ?hits]
    by (simp add: fuzzySearchTasks_full)
  have "sorted (map ?key (sort_key ?key ?hits))" by (rule sorted_sort_key)
  then show "sorted_wrt (\<lambda>x y. rank_score q y \<le> rank_score q x)
        (fuzzySearchTasks q (int (length (getAllTasksUnique s))) s)"
    by (simp add: fuzzySearchTasks_full sorted_map)
  show "score_task query t
         = (if toLowerCase (title t) = query then 100 else 0)
           + (if sublist query (toLowerCase (title t)) then 50 else 0)
           + (if sublist query (toLowerCase (description t)) then 20 else 0)
           + length (filter (\<lambda>ch. ch \<in> set (toLowerCase (title t))) query)" for query t
    by (rule score_task_formula)
next
  fix x y z :: "uid \<times> task"
  assume h: "toLowerCase (title (snd x)) = toLowerCase q
          \<and> toLowerCase (title (snd y)) \<noteq> toLowerCase q
          \<and> sublist (toLowerCase q) (toLowerCase (title (snd y)))
          \<and> \<not> sublist (toLowerCase q) (toLowerCase (title (snd z)))"
  let ?Q = "toLowerCase q"
  have cx: "length (filter (\<lambda>ch. ch \<in> set (toLowerCase (title (snd x)))) ?Q) = length ?Q"
    using h by (intro common_sublist) simp
  have cy: "length (filter (\<lambda>ch. ch \<in> set (toLowerCase (title (snd y)))) ?Q) = length ?Q"
    using h by (intro common_sublist) simp
  have cz: "length (filter (\<lambda>ch. ch \<in> set (toLowerCase (title (snd z)))) ?Q) \<le> length ?Q"
    by (rule common_le)
  have zne: "toLowerCase (title (snd z)) \<noteq> ?Q" using h by auto
  have zb: "rank_score q z \<le> 20 + length ?Q"
    unfolding score_task_formula using h zne cz by (simp del: length_filter_le)
  have yl: "50 + length ?Q \<le> rank_score q y" and yu: "rank_score q y \<le> 70 + length ?Q"
    unfolding score_task_formula using h cy by simp_all
  have xb: "150 + length ?Q \<le> rank_score q x"
    unfolding score_task_formula using h cx by simp
  show "rank_score q z < rank_score q y" using zb yl by linarith
  show "rank_score q y < rank_score q x" using yu xb by linarith
qed

text \<open>
  The theorem at the query \<^verbatim>\<open>foo\<close> and limit 5 on three tasks scanned in the order
  description-only, substring, exact: the result lists them exact, substring,
  description-only, with scores 153, 53 and 20.
\<close>

theorem fuzzySearchTasks_ranking_witness:
  "(0::int) \<le> 5
   \<and> map (\<lambda>x. task_id (snd x)) (fuzzySearchTasks ''foo'' 5 search_store) = [3, 2, 1]
   \<and> map (rank_score ''foo'') (fuzzySearchTasks ''foo'' 5 search_store) = [153, 53, 20]
   \<and> fuzzySearchTasks ''foo'' 5 search_store
       = take 5 (fuzzySearchTasks ''foo'' (int (length (getAllTasksUnique search_store)))
                   search_store)
   \<and> fuzzySearchTasks ''foo'' 1 search_store
       = take 1 (fuzzySearchTasks ''foo'' (int (length (getAllTasksUnique search_store)))
                   search_store)
   \<and> toLowerCase (title (heap search_store ! 2)) = toLowerCase ''foo''
   \<and> toLowerCase (title (heap search_store ! 1)) \<noteq> toLowerCase ''foo''
   \<and> sublist (toLowerCase ''foo'') (toLowerCase (title (heap search_store ! 1)))
   \<and> \<not> sublist (toLowerCase ''foo'') (toLowerCase (title (heap search_store ! 0)))
   \<and> rank_score ''foo'' (''u1'', heap search_store ! 0)
       < rank_score ''foo'' (''u1'', heap search_store ! 1)
   \<and> rank_score ''foo'' (''u1'', heap search_store ! 1)
       < rank_score ''foo'' (''u1'', heap search_store ! 2)"
proof -
  have l: "toLowerCase ''foo'' = ''foo''" "toLowerCase ''Bar'' = ''bar''"
    "toLowerCase ''Foobar'' = ''foobar''" "toLowerCase ''FOO'' = ''foo''"
    "toLowerCase ''about foo'' = ''about foo''" "toLowerCase [] = []"
    by code_simp+
  have r: "fuzzySearchTasks ''foo'' 5 search_store
             = [(''u1'', heap search_store ! 2), (''u1'', heap search_store ! 1),
                (''u1'', heap search_store ! 0)]"
    by (simp add: fuzzySearchTasks_def getAllTasksUnique_def entries_def search_store_def
        score_task_def l Let_def slice0_def)
  have ids: "map (\<lambda>x. task_id (snd x)) (fuzzySearchTasks ''foo'' 5 search_store) = [3, 2, 1]"
    by (simp add: r) (simp add: search_store_def)
  have scs: "map (rank_score ''foo'') (fuzzySearchTasks ''foo'' 5 search_store) = [153, 53, 20]"
    by (simp add: r) (simp add: search_store_def score_task_def l)
  have five: "(0::int) \<le> 5" and one: "(0::int) \<le> 1" by simp_all
  from fuzzySearchTasks_ranking[OF five, of "''foo''" search_store]
  have t5: "fuzzySearchTasks ''foo'' 5 search_store
       = take 5 (fuzzySearchTasks ''foo'' (int (length (getAllTasksUnique search_store)))
                   search_store)"
    by simp
  from fuzzySearchTasks_ranking[OF one, of "''foo''" search_store]
  have t1: "fuzzySearchTasks ''foo'' 1 search_store
       = take 1 (fuzzySearchTasks ''foo'' (int (length (getAllTasksUnique search_store)))
                   search_store)"
    by simp
  have c: "toLowerCase (title (heap search_store ! 2)) = toLowerCase ''foo''
      \<and> toLowerCase (title (heap search_store ! 1)) \<noteq> toLowerCase ''foo''
      \<and> sublist (toLowerCase ''foo'') (toLowerCase (title (heap search_store ! 1)))
      \<and> \<not> sublist (toLowerCase ''foo'') (toLowerCase (title (heap search_store ! 0)))"
    by (simp add: search_store_def l flip: includes_str_sublist)
  from fuzzySearchTasks_ranking[OF five, of "''foo''" search_store] c
  have o: "rank_score ''foo'' (''u1'', heap search_store ! 0)
             < rank_score ''foo'' (''u1'', heap search_store ! 1)
           \<and> rank_score ''foo'' (''u1'', heap search_store ! 1)
             < rank_score ''foo'' (''u1'', heap search_store ! 2)"
    by (metis snd_conv)
  from five ids scs t5 t1 c o show ?thesis by blast
qed

text \<open>
  The claim as the specification words it (one point per \<^emph>\<open>distinct\<close> query character)
  fails. For the query \<^verbatim>\<open>aab\<close> the title \<^verbatim>\<open>a\<close> scores 2, not 1: the character \<^verbatim>\<open>a\<close> is
  counted at both places of the query. With the title \<^verbatim>\<open>b\<close> (score 1) scanned first,
  the code ranks \<^verbatim>\<open>a\<close> before \<^verbatim>\<open>b\<close>; the specified scoring makes them equal and keeps
  the scan order, \<^verbatim>\<open>b\<close> before \<^verbatim>\<open>a\<close>.
\<close>

theorem fuzzySearchTasks_distinct_counterexample:
  "score_task ''aab'' (heap tie_store ! 1) = 2
   \<and> score_as_specified ''aab'' (heap tie_store ! 1) = 1
   \<and> map (\<lambda>x. task_id (snd x)) (fuzzySearchTasks ''aab'' 5 tie_store) = [1, 2]
   \<and> map (\<lambda>x. task_id (snd x)) (fuzzySearch_as_specified ''aab'' 5 tie_store) = [2, 1]"
proof -
  have l: "toLowerCase ''aab'' = ''aab''" "toLowerCase ''a'' = ''a''" "toLowerCase ''b'' = ''b''"
    "toLowerCase [] = []"
    by code_simp+
  have sc: "score_task ''aab'' (heap tie_store ! 1) = 2"
    "score_as_specified ''aab'' (heap tie_store ! 1) = 1"
    by (simp_all add: score_task_def score_as_specified_def tie_store_def l)
  have a: "map (\<lambda>x. task_id (snd x)) (fuzzySearchTasks ''aab'' 5 tie_store) = [1, 2]"
    by (simp add: fuzzySearchTasks_def getAllTasksUnique_def entries_def tie_store_def
        score_task_def l Let_def slice0_def)
  have b: "map (\<lambda>x. task_id (snd x)) (fuzzySearch_as_specified ''aab'' 5 tie_store) = [2, 1]"
    by (simp add: fuzzySearch_as_specified_def getAllTasksUnique_def entries_def tie_store_def
        score_as_specified_def l Let_def slice0_def)
  from sc a b show ?thesis by simp
qed

section \<open>Start-up reconciliation\<close>

lemma mark_overdue_cases:
  "mark_overdue now t =
     (if (\<exists>d. due t = Some d \<and> d < now) \<and> status t \<noteq> ''Done'' \<and> status t \<noteq> ''Overdue''
      then t\<lparr>status := ''Overdue'',
             logs := logs t @ [\<lparr>date = now, action = ''Auto-marked overdue on startup''\<rparr>]\<rparr>
      else t)"
  by (auto simp: mark_overdue_def split: option.splits)

lemma mark_overdue_again:
  "mark_overdue now' (mark_overdue now t) =
     (if mark_overdue now t = t then mark_overdue now' t else mark_overdue now t)"
  by (auto simp: mark_overdue_def split: option.splits)

lemma mark_overdue_idem: "mark_overdue now (mark_overdue now t) = mark_overdue now t"
  by (simp add: mark_overdue_again)

lemma length_ready_loop: "length (ready_loop now as h) = length h"
  by (induction as arbitrary: h) auto

lemma nth_ready_loop:
  "b < length h \<Longrightarrow>
     ready_loop now as h ! b = (if b \<in> set as then mark_overdue now (h ! b) else h ! b)"
proof (induction as arbitrary: h)
  case Nil
  then show ?case by simp
next
  case (Cons a as)
  let ?h = "h[a := mark_overdue now (h ! a)]"
  have "ready_loop now (a # as) h ! b = ready_loop now as ?h ! b" by simp
  also have "\<dots> = (if b \<in> set as then mark_overdue now (?h ! b) else ?h ! b)"
    using Cons.prems by (intro Cons.IH) simp
  also have "\<dots> = (if b \<in> set (a # as) then mark_overdue now (h ! b) else h ! b)"
    using Cons.prems by (cases "b = a") (simp_all add: mark_overdue_idem)
  finally show ?case .
qed

lemma entries_client_ready: "entries (client_ready now s) = entries s"
  by (simp add: client_ready_def entries_def)

lemma client_ready_idem: "client_ready now (client_ready now s) = client_ready now s"
proof -
  let ?as = "map snd (entries s)"
  have "ready_loop now ?as (ready_loop now ?as (heap s)) = ready_loop now ?as (heap s)"
    by (rule nth_equalityI)
       (simp_all add: length_ready_loop nth_ready_loop mark_overdue_idem)
  then show ?thesis
    by (simp add: client_ready_def entries_def)
qed

lemma client_ready_nth:
  assumes "(u, a) \<in> set (entries s)" "a < length (heap s)"
  shows "heap (client_ready now s) ! a = mark_overdue now (heap s ! a)"
proof -
  have "a \<in> set (map snd (entries s))" using assms(1) by force
  then show ?thesis using assms(2) by (simp add: client_ready_def nth_ready_loop)
qed

text \<open>
  Claim C6. The start-up pass leaves the collections as they are; every stored task whose
  \<^verbatim>\<open>due\<close> is before \<open>now\<close> and whose status is neither \<^verbatim>\<open>Done\<close> nor \<^verbatim>\<open>Overdue\<close> gets
  status \<^verbatim>\<open>Overdue\<close> and exactly one more log entry, "Auto-marked overdue on startup",
  and every other stored task (no due, due not passed, \<^verbatim>\<open>Done\<close>, already \<^verbatim>\<open>Overdue\<close>)
  is unchanged. Running the pass again on the result changes nothing; and a task the pass
  has marked is not touched by a later pass, whatever the clock then reads.
\<close>

theorem client_ready_idempotent:
  "client_ready now (client_ready now s) = client_ready now s
   \<and> tasks (client_ready now s) = tasks s
   \<and> (\<forall>(u, a) \<in> set (entries s). a < length (heap s) \<longrightarrow>
        (if (\<exists>d. due (heap s ! a) = Some d \<and> d < now)
              \<and> status (heap s ! a) \<noteq> ''Done'' \<and> status (heap s ! a) \<noteq> ''Overdue''
         then heap (client_ready now s) ! a
                = (heap s ! a)\<lparr>status := ''Overdue'',
                     logs := logs (heap s ! a)
                       @ [\<lparr>date = now, action = ''Auto-marked overdue on startup''\<rparr>]\<rparr>
              \<and> heap (client_ready now' (client_ready now s)) ! a
                  = heap (client_ready now s) ! a
         else heap (client_ready now s) ! a = heap s ! a))"
proof (intro conjI)
  show "client_ready now (client_ready now s) = client_ready now s"
    by (rule client_ready_idem)
  show "tasks (client_ready now s) = tasks s"
    by (simp add: client_ready_def)
  show "\<forall>(u, a) \<in> set (entries s). a < length (heap s) \<longrightarrow>
        (if (\<exists>d. due (heap s ! a) = Some d \<and> d < now)
              \<and> status (heap s ! a) \<noteq> ''Done'' \<and> status (heap s ! a) \<noteq> ''Overdue''
         then heap (client_ready now s) ! a
                = (heap s ! a)\<lparr>status := ''Overdue'',
                     logs := logs (heap s ! a)
                       @ [\<lparr>date = now, action = ''Auto-marked overdue on startup''\<rparr>]\<rparr>
              \<and> heap (client_ready now' (client_ready now s)) ! a
                  = heap (client_ready now s) ! a
         else heap (client_ready now s) ! a = heap s ! a)"
  proof (clarify)
    fix u a
    assume ua: "(u, a) \<in> set (entries s)" and a: "a < length (heap s)"
    let ?t = "heap s ! a"
    have first: "heap (client_ready now s) ! a = mark_overdue now ?t"
      using ua a by (rule client_ready_nth)
    have ua': "(u, a) \<in> set (entries (client_ready now s))"
      using ua by (simp add: entries_client_ready)
    have a': "a < length (heap (client_ready now s))"
      using a by (simp add: client_ready_def length_ready_loop)
    have second: "heap (client_ready now' (client_ready now s)) ! a
                    = mark_overdue now' (mark_overdue now ?t)"
      using client_ready_nth[OF ua' a'] first by simp
    show "if (\<exists>d. due ?t = Some d \<and> d < now) \<and> status ?t \<noteq> ''Done'' \<and> status ?t \<noteq> ''Overdue''
         then heap (client_ready now s) ! a
                = ?t\<lparr>status := ''Overdue'',
                     logs := logs ?t @ [\<lparr>date = now, action = ''Auto-marked overdue on startup''\<rparr>]\<rparr>
              \<and> heap (client_ready now' (client_ready now s)) ! a
                  = heap (client_ready now s) ! a
         else heap (client_ready now s) ! a = ?t"
      unfolding first second
      by (auto simp: mark_overdue_def split: option.splits)
  qed
qed

text \<open>
  The theorem at a store with one task, overdue and pending, shared by two assignees: the
  pass marks it once, and a second pass, one minute later, leaves it alone.
\<close>

theorem client_ready_idempotent_witness:
  "(''u2'', 0) \<in> set (entries overdue_store) \<and> 0 < length (heap overdue_store)
   \<and> status (heap (client_ready 2000 overdue_store) ! 0) = ''Overdue''
   \<and> logs (heap (client_ready 2000 overdue_store) ! 0)
       = [\<lparr>date = 0, action = ''Assigned by ann''\<rparr>,
          \<lparr>date = 2000, action = ''Auto-marked overdue on startup''\<rparr>]
   \<and> heap (client_ready 62000 (client_ready 2000 overdue_store)) ! 0
       = heap (client_ready 2000 overdue_store) ! 0
   \<and> client_ready 2000 (client_ready 2000 overdue_store) = client_ready 2000 overdue_store"
proof -
  have e: "(''u2'', 0) \<in> set (entries overdue_store)"
    by (simp add: entries_def overdue_store_def)
  have l: "0 < length (heap overdue_store)"
    by (simp add: overdue_store_def)
  have c: "(\<exists>d. due (heap overdue_store ! 0) = Some d \<and> d < 2000)
             \<and> status (heap overdue_store ! 0) \<noteq> ''Done''
             \<and> status (heap overdue_store ! 0) \<noteq> ''Overdue''"
    by (simp add: overdue_store_def)
  from client_ready_idempotent[of 2000 overdue_store 62000]
  have idem: "client_ready 2000 (client_ready 2000 overdue_store) = client_ready 2000 overdue_store"
    and all: "\<forall>(u, a) \<in> set (entries overdue_store). a < length (heap overdue_store) \<longrightarrow>
        (if (\<exists>d. due (heap overdue_store ! a) = Some d \<and> d < 2000)
              \<and> status (heap overdue_store ! a) \<noteq> ''Done''
              \<and> status (heap overdue_store ! a) \<noteq> ''Overdue''
         then heap (client_ready 2000 overdue_store) ! a
                = (heap overdue_store ! a)\<lparr>status := ''Overdue'',
                     logs := logs (heap overdue_store ! a)
                       @ [\<lparr>date = 2000, action = ''Auto-marked overdue on startup''\<rparr>]\<rparr>
              \<and> heap (client_ready 62000 (client_ready 2000 overdue_store)) ! a
                  = heap (client_ready 2000 overdue_store) ! a
         else heap (client_ready 2000 overdue_store) ! a = heap overdue_store ! a)"
    by blast+
  from all e l c
  have m: "heap (client_ready 2000 overdue_store) ! 0
             = (heap overdue_store ! 0)\<lparr>status := ''Overdue'',
                  logs := logs (heap overdue_store ! 0)
                    @ [\<lparr>date = 2000, action = ''Auto-marked overdue on startup''\<rparr>]\<rparr>"
    and k: "heap (client_ready 62000 (client_ready 2000 overdue_store)) ! 0
              = heap (client_ready 2000 overdue_store) ! 0"
    by (auto split: if_splits)
  have st: "status (heap (client_ready 2000 overdue_store) ! 0) = ''Overdue''"
    by (simp add: m)
  have lg: "logs (heap (client_ready 2000 overdue_store) ! 0)
       = [\<lparr>date = 0, action = ''Assigned by ann''\<rparr>,
          \<lparr>date = 2000, action = ''Auto-marked overdue on startup''\<rparr>]"
    by (simp add: m) (simp add: overdue_store_def)
  from e l st lg k idem show ?thesis by simp
qed

section \<open>Backup rotation\<close>

lemma prefix_backup_name: "prefix (base @ ''.'') (backup_name base isoStr)"
  by (simp add: backup_name_def)

lemma filter_not_in_take:
  assumes "distinct xs"
  shows "filter (\<lambda>x. x \<notin> set (take m xs)) xs = drop m xs"
proof -
  have d: "set (take m xs) \<inter> set (drop m xs) = {}"
    using assms by (rule set_take_disj_set_drop_if_distinct) simp
  have t: "filter (\<lambda>x. x \<notin> set (take m xs)) (take m xs) = []"
    by (simp add: filter_empty_conv)
  have r: "filter (\<lambda>x. x \<notin> set (take m xs)) (drop m xs) = drop m xs"
    using d by (subst filter_id_conv) blast
  have "filter (\<lambda>x. x \<notin> set (take m xs)) xs
          = filter (\<lambda>x. x \<notin> set (take m xs)) (take m xs @ drop m xs)"
    by (simp only: append_take_drop_id)
  also have "\<dots> = drop m xs" by (simp only: filter_append t r append_Nil)
  finally show ?thesis .
qed

text \<open>
  One backup when the new name is above every backup of the file that is there: the new
  name is added, and of the file's backups the newest \<open>keep\<close> stay, in order; the other
  files of the directory are not touched.
\<close>

lemma backupFile_step:
  assumes "0 < N"
    and "filter (prefix (base @ ''.'')) dir = names"
    and "sorted_wrt (<) (names @ [backup_name base isoStr])"
  shows "filter (prefix (base @ ''.'')) (backupFile N base isoStr dir)
           = drop (length names + 1 - N) (names @ [backup_name base isoStr])"
    and "filter (\<lambda>f. \<not> prefix (base @ ''.'') f) (backupFile N base isoStr dir)
           = filter (\<lambda>f. \<not> prefix (base @ ''.'') f) dir"
proof -
  let ?P = "prefix (base @ ''.'')"
  let ?dest = "backup_name base isoStr"
  let ?files = "names @ [?dest]"
  have pd: "?P ?dest" by (rule prefix_backup_name)
  have above: "\<forall>x \<in> set names. x < ?dest"
    using assms(3) by (simp add: sorted_wrt_append)
  have notin: "?dest \<notin> set dir"
  proof
    assume "?dest \<in> set dir"
    with pd have "?dest \<in> set (filter ?P dir)" by simp
    with assms(2) above show False by auto
  qed
  have files: "filter ?P (dir @ [?dest]) = ?files"
    using assms(2) pd by simp
  have srt: "sort ?files = ?files"
    using assms(3) by (intro sorted_sort_id strict_sorted_imp_sorted)
  have dist: "distinct ?files"
    using assms(3) by (simp only: strict_sorted_iff)
  have keep: "(if N = 0 then 10 else N) = N" using assms(1) by simp
  let ?m = "length ?files - N"
  let ?remove = "take ?m ?files"
  have unfold: "backupFile N base isoStr dir
      = (if N < length ?files then filter (\<lambda>f. f \<notin> set ?remove) (dir @ [?dest])
         else dir @ [?dest])"
    unfolding backupFile_def Let_def using notin
    by (simp only: if_False files keep srt)
  have allP: "\<forall>f \<in> set ?remove. ?P f"
  proof
    fix f assume "f \<in> set ?remove"
    then have "f \<in> set ?files" by (rule in_set_takeD)
    then have "f \<in> set (filter ?P (dir @ [?dest]))" by (simp only: files)
    then show "?P f" by (simp only: set_filter mem_Collect_eq)
  qed
  show "filter ?P (backupFile N base isoStr dir) = drop (length names + 1 - N) ?files"
  proof (cases "N < length ?files")
    case True
    have "filter ?P (filter (\<lambda>f. f \<notin> set ?remove) (dir @ [?dest]))
            = filter (\<lambda>f. f \<notin> set ?remove) (filter ?P (dir @ [?dest]))"
      by (simp only: filter_filter conj_commute)
    also have "\<dots> = filter (\<lambda>f. f \<notin> set ?remove) ?files" by (simp only: files)
    also have "\<dots> = drop ?m ?files" using dist by (rule filter_not_in_take)
    finally show ?thesis using True by (simp add: unfold)
  next
    case False
    then show ?thesis by (simp add: unfold files del: filter_append)
  qed
  show "filter (\<lambda>f. \<not> ?P f) (backupFile N base isoStr dir) = filter (\<lambda>f. \<not> ?P f) dir"
  proof (cases "N < length ?files")
    case True
    have "filter (\<lambda>f. \<not> ?P f) (filter (\<lambda>f. f \<notin> set ?remove) (dir @ [?dest]))
            = filter (\<lambda>f. \<not> ?P f) (dir @ [?dest])"
      using allP by (auto simp: filter_filter intro: filter_cong)
    then show ?thesis using True pd by (simp add: unfold)
  next
    case False
    then show ?thesis using pd by (simp add: unfold)
  qed
qed

lemma drop_append_le: "d \<le> length xs \<Longrightarrow> drop d (xs @ ys) = drop d xs @ ys"
  by simp

lemma drop_drop_tail:
  fixes xs rest :: "'a list"
  shows "drop (length (drop (length xs - N) xs) + length rest - N) (drop (length xs - N) xs @ rest)
           = drop (length xs + length rest - N) (xs @ rest)"
proof (cases "length xs \<le> N")
  case True
  then show ?thesis by simp
next
  case False
  have n: "length (drop (length xs - N) xs) + length rest - N = length rest"
    using False by simp
  have e: "length rest + (length xs - N) = length xs + length rest - N"
    using False by arith
  have "drop (length rest) (drop (length xs - N) xs @ rest)
          = drop (length rest) (drop (length xs - N) (xs @ rest))"
    by (simp only: drop_append_le[OF diff_le_self])
  also have "\<dots> = drop (length rest + (length xs - N)) (xs @ rest)"
    by (rule drop_drop)
  finally show ?thesis by (simp only: n e)
qed

lemma backups_after_names:
  assumes "0 < N"
    and "filter (prefix (base @ ''.'')) dir = names"
    and "sorted_wrt (<) (names @ map (backup_name base) isoStrs)"
    and "length names \<le> N"
  shows "filter (prefix (base @ ''.'')) (backups_after N base isoStrs dir)
           = drop (length names + length isoStrs - N) (names @ map (backup_name base) isoStrs)
         \<and> filter (\<lambda>f. \<not> prefix (base @ ''.'') f) (backups_after N base isoStrs dir)
           = filter (\<lambda>f. \<not> prefix (base @ ''.'') f) dir"
  using assms(2,3,4)
proof (induction isoStrs arbitrary: dir names)
  case Nil
  then show ?case by (simp add: backups_after_def)
next
  case (Cons t ts)
  let ?P = "prefix (base @ ''.'')"
  let ?xs = "names @ [backup_name base t]"
  let ?names1 = "drop (length ?xs - N) ?xs"
  let ?rest = "map (backup_name base) ts"
  have s1: "sorted_wrt (<) ?xs"
    using Cons.prems(2) by (simp add: sorted_wrt_append)
  note step = backupFile_step[OF assms(1) Cons.prems(1) s1]
  have f1: "filter ?P (backupFile N base t dir) = ?names1"
    using step(1) by simp
  have all: "sorted_wrt (<) (?xs @ ?rest)" using Cons.prems(2) by simp
  have "sorted_wrt (<) (drop (length ?xs - N) (?xs @ ?rest))"
    using all by (rule sorted_wrt_drop)
  then have s2: "sorted_wrt (<) (?names1 @ ?rest)"
    by (simp only: drop_append_le[OF diff_le_self])
  have l1: "length ?names1 \<le> N" by simp
  from Cons.IH[OF f1 s2 l1]
  have ih1: "filter ?P (backups_after N base ts (backupFile N base t dir))
               = drop (length ?names1 + length ?rest - N) (?names1 @ ?rest)"
    and ih2: "filter (\<lambda>f. \<not> ?P f) (backups_after N base ts (backupFile N base t dir))
               = filter (\<lambda>f. \<not> ?P f) (backupFile N base t dir)"
    by simp_all
  have unf: "backups_after N base (t # ts) dir = backups_after N base ts (backupFile N base t dir)"
    by (simp add: backups_after_def)
  have "filter ?P (backups_after N base (t # ts) dir)
          = drop (length ?xs + length ?rest - N) (?xs @ ?rest)"
    unfolding unf ih1 by (rule drop_drop_tail)
  moreover have "filter (\<lambda>f. \<not> ?P f) (backups_after N base (t # ts) dir)
          = filter (\<lambda>f. \<not> ?P f) dir"
    unfolding unf ih2 by (rule step(2))
  ultimately show ?case by simp
qed

lemma backupFile_zero: "backupFile 0 base isoStr dir = backupFile 10 base isoStr dir"
  by (simp add: backupFile_def)

lemma backups_after_zero: "backups_after 0 base isoStrs dir = backups_after 10 base isoStrs dir"
  by (simp add: backups_after_def backupFile_zero)

text \<open>
  Claim C7, as the code has it. Let the retention \<open>N\<close> be at least 1, let the directory
  hold no backup of the file yet, and let \<open>N + K\<close> writes of the file follow whose backup
  names are strictly increasing (as the names of backups taken at different milliseconds
  are). Then the directory holds exactly \<open>N\<close> backups of the file, those of the \<open>N\<close> most
  recent writes, and the backups of other files are as before. A retention of 0 is read
  as 10.
\<close>

theorem backups_after_retention:
  assumes "0 < N"
    and "filter (prefix (base @ ''.'')) dir = []"
    and "sorted_wrt (<) (map (backup_name base) isoStrs)"
    and "length isoStrs = N + K"
  shows "filter (prefix (base @ ''.'')) (backups_after N base isoStrs dir)
           = map (backup_name base) (drop K isoStrs)
   \<and> length (filter (prefix (base @ ''.'')) (backups_after N base isoStrs dir)) = N
   \<and> filter (\<lambda>f. \<not> prefix (base @ ''.'') f) (backups_after N base isoStrs dir)
       = filter (\<lambda>f. \<not> prefix (base @ ''.'') f) dir
   \<and> backups_after 0 base isoStrs dir = backups_after 10 base isoStrs dir"
proof -
  have s: "sorted_wrt (<) ([] @ map (backup_name base) isoStrs)" using assms(3) by simp
  have e: "length ([]::string list) \<le> N" by simp
  from backups_after_names[OF assms(1,2) s e]
  have a: "filter (prefix (base @ ''.'')) (backups_after N base isoStrs dir)
             = drop (length isoStrs - N) (map (backup_name base) isoStrs)"
    and b: "filter (\<lambda>f. \<not> prefix (base @ ''.'') f) (backups_after N base isoStrs dir)
             = filter (\<lambda>f. \<not> prefix (base @ ''.'') f) dir"
    by simp_all
  have a': "filter (prefix (base @ ''.'')) (backups_after N base isoStrs dir)
             = map (backup_name base) (drop K isoStrs)"
    using a assms(4) by (simp add: drop_map)
  have c: "length (filter (prefix (base @ ''.'')) (backups_after N base isoStrs dir)) = N"
    using assms(4) by (simp add: a')
  from a' b c backups_after_zero show ?thesis by blast
qed

text \<open>
  The theorem at retention 2 and three writes of \<^verbatim>\<open>tasks.json\<close>, in a directory that
  holds a backup of \<^verbatim>\<open>config.json\<close>: the backups of the last two writes remain.
\<close>

theorem backups_after_retention_witness:
  "(0::nat) < 2
   \<and> filter (prefix (''tasks.json'' @ ''.''))
        [''config.json.2026-11-02T18-00-00-000Z.bak.json''] = []
   \<and> sorted_wrt (<) (map (backup_name ''tasks.json'')
        [''2026-11-02T18:36:00.000Z'', ''2026-11-02T18:36:00.250Z'', ''2026-11-02T18:41:07.001Z''])
   \<and> length [''2026-11-02T18:36:00.000Z'', ''2026-11-02T18:36:00.250Z'',
               ''2026-11-02T18:41:07.001Z''] = 2 + 1
   \<and> filter (prefix (''tasks.json'' @ ''.''))
        (backups_after 2 ''tasks.json''
           [''2026-11-02T18:36:00.000Z'', ''2026-11-02T18:36:00.250Z'', ''2026-11-02T18:41:07.001Z'']
           [''config.json.2026-11-02T18-00-00-000Z.bak.json''])
       = [''tasks.json.2026-11-02T18-36-00-250Z.bak.json'',
          ''tasks.json.2026-11-02T18-41-07-001Z.bak.json'']"
proof -
  let ?isos = "[''2026-11-02T18:36:00.000Z'', ''2026-11-02T18:36:00.250Z'',
                ''2026-11-02T18:41:07.001Z'']"
  let ?dir = "[''config.json.2026-11-02T18-00-00-000Z.bak.json'']"
  have n: "(0::nat) < 2" by simp
  have d: "filter (prefix (''tasks.json'' @ ''.'')) ?dir = []" by simp
  have names: "map (backup_name ''tasks.json'') ?isos
      = [''tasks.json.2026-11-02T18-36-00-000Z.bak.json'',
         ''tasks.json.2026-11-02T18-36-00-250Z.bak.json'',
         ''tasks.json.2026-11-02T18-41-07-001Z.bak.json'']"
    by (simp add: backup_name_def stamp_def)
  have s: "sorted_wrt (<) (map (backup_name ''tasks.json'') ?isos)"
    unfolding names by simp
  have l: "length ?isos = 2 + 1" by simp
  from backups_after_retention[OF n d s l]
  have "filter (prefix (''tasks.json'' @ ''.'')) (backups_after 2 ''tasks.json'' ?isos ?dir)
          = map (backup_name ''tasks.json'') (drop 1 ?isos)"
    by blast
  then have r: "filter (prefix (''tasks.json'' @ ''.'')) (backups_after 2 ''tasks.json'' ?isos ?dir)
          = [''tasks.json.2026-11-02T18-36-00-250Z.bak.json'',
             ''tasks.json.2026-11-02T18-41-07-001Z.bak.json'']"
    by (simp add: backup_name_def stamp_def)
  from n d s l r show ?thesis by blast
qed

text \<open>
  The claim as the specification words it fails in three ways. With retention 0 the
  first write leaves 1 backup, not 0. With retention 1, three writes leave the most
  recent backup, which is not "the \<open>K = 2\<close> most recent". With retention 2, two writes
  within one millisecond get the same name and leave 1 backup, not 2.
\<close>

theorem backups_after_counterexample:
  "backups_after 0 ''tasks.json'' [''2026-11-02T18:36:00.000Z''] []
     = [''tasks.json.2026-11-02T18-36-00-000Z.bak.json'']
   \<and> backups_after 1 ''tasks.json''
        [''2026-11-02T18:36:00.000Z'', ''2026-11-02T18:36:00.250Z'', ''2026-11-02T18:41:07.001Z'']
        []
     = [''tasks.json.2026-11-02T18-41-07-001Z.bak.json'']
   \<and> backups_after 1 ''tasks.json''
        [''2026-11-02T18:36:00.000Z'', ''2026-11-02T18:36:00.250Z'', ''2026-11-02T18:41:07.001Z'']
        []
     \<noteq> [''tasks.json.2026-11-02T18-36-00-250Z.bak.json'',
         ''tasks.json.2026-11-02T18-41-07-001Z.bak.json'']
   \<and> backups_after 2 ''tasks.json'' [''2026-11-02T18:36:00.000Z'', ''2026-11-02T18:36:00.000Z''] []
     = [''tasks.json.2026-11-02T18-36-00-000Z.bak.json'']"
  by (simp add: backups_after_def backupFile_def backup_name_def stamp_def)

section \<open>Deduplication by task id\<close>

text \<open>
  Claim C8. \<^verbatim>\<open>getAllTasksUnique\<close> returns one entry per distinct task id of the store:
  the ids of its entries are pairwise different, they are exactly the ids stored in some
  assignee's collection, and each entry is the first entry with its id in scan order
  (so it carries the assignee whose collection was scanned first).
\<close>

theorem getAllTasksUnique_first_occurrence:
  "distinct (map (\<lambda>x. task_id (snd x)) (getAllTasksUnique s))
   \<and> set (map (\<lambda>x. task_id (snd x)) (getAllTasksUnique s))
       = set (map (\<lambda>x. task_id (snd x)) (scanned s))
   \<and> map (\<lambda>x. find (\<lambda>y. task_id (snd y) = task_id (snd x)) (scanned s)) (getAllTasksUnique s)
       = map Some (getAllTasksUnique s)"
proof (intro conjI)
  show "distinct (map (\<lambda>x. task_id (snd x)) (getAllTasksUnique s))"
    by (simp only: getAllTasksUnique_def unique_loop_distinct)
  have "set (map (\<lambda>x. task_id (snd x)) (getAllTasksUnique s))
          = set (map (\<lambda>(u, a). task_id (heap s ! a)) (entries s))"
    by (simp only: getAllTasksUnique_def unique_loop_ids) simp
  also have "\<dots> = set (map (\<lambda>x. task_id (snd x)) (scanned s))"
    by (simp add: scanned_def comp_def case_prod_beta)
  finally show "set (map (\<lambda>x. task_id (snd x)) (getAllTasksUnique s))
                  = set (map (\<lambda>x. task_id (snd x)) (scanned s))" .
  show "map (\<lambda>x. find (\<lambda>y. task_id (snd y) = task_id (snd x)) (scanned s)) (getAllTasksUnique s)
          = map Some (getAllTasksUnique s)"
    by (rule map_cong[OF refl]) (simp add: getAllTasksUnique_def scanned_def unique_loop_first)
qed

text \<open>
  A task assigned to three users is stored in three collections and listed once, under
  the assignee scanned first.
\<close>

lemma getAllTasksUnique_three_assignees:
  "map (\<lambda>x. (fst x, task_id (snd x)))
     (getAllTasksUnique
        (snd (task_assign (\<lambda>d. None) [] True ''boss'' ''Ship it'' None None None
                [\<lparr>mention_id = ''u1'', username = ''ann''\<rparr>,
                 \<lparr>mention_id = ''u2'', username = ''bob''\<rparr>,
                 \<lparr>mention_id = ''u3'', username = ''cy''\<rparr>] 1700000000000
                \<lparr>heap = [], tasks = []\<rparr>)))
   = [(''u1'', 1700000000000)]"
  by (simp add: task_assign_def resolve_assignees_def dedup_def parseDue_def push_task_def
      getAllTasksUnique_def entries_def)

section \<open>Status update by id and the other assignees' copies\<close>





text \<open>
  For contrast: before any reload the two collections hold one shared object, and the
  same update is seen from both.
\<close>

lemma task_update_shared_object:
  "map (\<lambda>(u, a). (u, status (heap (snd (task_update ''u2'' ''bob'' False (Some 7) None ''Done'' 50
                                         overdue_store)) ! a)))
     (entries (snd (task_update ''u2'' ''bob'' False (Some 7) None ''Done'' 50 overdue_store)))
   = [(''u1'', ''Done''), (''u2'', ''Done'')]"
  by (simp add: task_update_def resolve_def found_by_id_def findTaskById_def overdue_store_def
      valid_def write_back_def entries_def)

section \<open>Tasks without a deadline\<close>

text \<open>
  Claim C10. A due string that the date parser rejects gives the task that an absent
  due gives: \<^verbatim>\<open>parseDue\<close> returns \<^verbatim>\<open>null\<close>, the handler succeeds, and the task it
  stores for the creator, with the given title and no deadline, is skipped by the
  reminder scan (no notice, no change) and by the start-up pass, at any instant and for
  any configured windows.
\<close>

theorem task_create_unparsable_due:
  assumes "parseDate str = None"
  shows "parseDue parseDate (Some str) = None
   \<and> task_create parseDate user_id user_name ttl descr (Some str) now s
       = task_create parseDate user_id user_name ttl descr None now s
   \<and> fst (task_create parseDate user_id user_name ttl descr (Some str) now s) = None
   \<and> (user_id, length (heap s))
       \<in> set (entries (snd (task_create parseDate user_id user_name ttl descr (Some str) now s)))
   \<and> title (heap (snd (task_create parseDate user_id user_name ttl descr (Some str) now s))
              ! length (heap s)) = ttl
   \<and> due (heap (snd (task_create parseDate user_id user_name ttl descr (Some str) now s))
            ! length (heap s)) = None
   \<and> scan_task now' ws
        (heap (snd (task_create parseDate user_id user_name ttl descr (Some str) now s))
           ! length (heap s))
       = (heap (snd (task_create parseDate user_id user_name ttl descr (Some str) now s))
            ! length (heap s), [])
   \<and> heap (fst (scheduled_scan now' reminders
                  (snd (task_create parseDate user_id user_name ttl descr (Some str) now s))))
         ! length (heap s)
       = heap (snd (task_create parseDate user_id user_name ttl descr (Some str) now s))
           ! length (heap s)
   \<and> heap (client_ready now'
              (snd (task_create parseDate user_id user_name ttl descr (Some str) now s)))
         ! length (heap s)
       = heap (snd (task_create parseDate user_id user_name ttl descr (Some str) now s))
           ! length (heap s)"
proof -
  let ?r = "task_create parseDate user_id user_name ttl descr (Some str) now s"
  let ?s' = "snd ?r"
  let ?a = "length (heap s)"
  let ?t = "heap ?s' ! ?a"
  have pd: "parseDue parseDate (Some str) = None"
    using assms by (simp add: parseDue_def)
  have same: "?r = task_create parseDate user_id user_name ttl descr None now s"
    using pd by (simp add: task_create_def parseDue_def)
  have ok: "fst ?r = None" by (simp add: task_create_def)
  have len: "?a < length (heap ?s')" by (simp add: task_create_def)
  have ttl: "title ?t = ttl" by (simp add: task_create_def)
  have due: "due ?t = None" using pd by (simp add: task_create_def)
  have "map_of (tasks ?s') user_id
          = Some ((case map_of (tasks s) user_id of None \<Rightarrow> [] | Some l \<Rightarrow> l) @ [?a])"
    by (simp add: task_create_def map_of_push_task)
  then have ent: "(user_id, ?a) \<in> set (entries ?s')"
    by (rule in_entries_map_of) simp
  have st: "scan_task now' ws ?t = (?t, [])"
    using due by (rule scan_task_no_due)
  have sc: "heap (fst (scheduled_scan now' reminders ?s')) ! ?a = ?t"
    using scan_loop_no_due[OF len due, of now' "windows_of reminders" "map snd (entries ?s')"]
    by (simp add: scheduled_scan_def case_prod_beta)
  have cr: "heap (client_ready now' ?s') ! ?a = ?t"
    using client_ready_nth[OF ent len, of now'] due by (simp add: mark_overdue_def)
  from pd same ok ent ttl due st sc cr show ?thesis by blast
qed

text \<open>
  The theorem at a parser that knows one date, on the empty store: \<^verbatim>\<open>soon\<close> is not a
  date, and the scan one day later fires nothing.
\<close>

theorem task_create_unparsable_due_witness:
  "(\<lambda>d. if d = ''2030-01-01'' then Some (1893456000000::int) else None) ''soon'' = None
   \<and> task_create (\<lambda>d. if d = ''2030-01-01'' then Some 1893456000000 else None)
        ''u1'' ''ann'' ''Water the plants'' None (Some ''soon'') 1700000000000
        \<lparr>heap = [], tasks = []\<rparr>
       = (None,
          \<lparr>heap = [\<lparr>task_id = 1700000000000, title = ''Water the plants'', description = [],
                    due = None, status = ''Pending'', createdBy = ''ann'',
                    assignedTo = [''u1''], department = None,
                    logs = [\<lparr>date = 1700000000000, action = ''Created''\<rparr>],
                    remindersSent = []\<rparr>],
           tasks = [(''u1'', [0])]\<rparr>)
   \<and> snd (scheduled_scan 1700086400000 None
             (snd (task_create (\<lambda>d. if d = ''2030-01-01'' then Some 1893456000000 else None)
                ''u1'' ''ann'' ''Water the plants'' None (Some ''soon'') 1700000000000
                \<lparr>heap = [], tasks = []\<rparr>))) = []"
proof -
  let ?pd = "\<lambda>d. if d = ''2030-01-01'' then Some (1893456000000::int) else None"
  have h: "?pd ''soon'' = None" by simp
  note inst = task_create_unparsable_due[where parseDate = ?pd and str = "''soon''"
      and user_id = "''u1''" and user_name = "''ann''" and ttl = "''Water the plants''"
      and descr = None and now = 1700000000000 and s = "\<lparr>heap = [], tasks = []\<rparr>"]
  from inst h have eq: "task_create ?pd ''u1'' ''ann'' ''Water the plants'' None (Some ''soon'')
        1700000000000 \<lparr>heap = [], tasks = []\<rparr>
      = task_create ?pd ''u1'' ''ann'' ''Water the plants'' None None
        1700000000000 \<lparr>heap = [], tasks = []\<rparr>"
    by blast
  have v: "task_create ?pd ''u1'' ''ann'' ''Water the plants'' None None
        1700000000000 \<lparr>heap = [], tasks = []\<rparr>
       = (None,
          \<lparr>heap = [\<lparr>task_id = 1700000000000, title = ''Water the plants'', description = [],
                    due = None, status = ''Pending'', createdBy = ''ann'',
                    assignedTo = [''u1''], department = None,
                    logs = [\<lparr>date = 1700000000000, action = ''Created''\<rparr>],
                    remindersSent = []\<rparr>],
           tasks = [(''u1'', [0])]\<rparr>)"
    by (simp add: task_create_def parseDue_def push_task_def)
  have n: "snd (scheduled_scan 1700086400000 None
             (snd (task_create ?pd ''u1'' ''ann'' ''Water the plants'' None (Some ''soon'')
                1700000000000 \<lparr>heap = [], tasks = []\<rparr>))) = []"
    unfolding eq v
    by (simp add: scheduled_scan_def entries_def scan_task_def split: prod.splits)
  from h eq v n show ?thesis by simp
qed

end
